theory Spec2Isabelle
  imports Main "HOL-Library.AList" "HOL-Library.Sublist"
begin

section \<open>The Move Binary Data node\<close>

text \<open>
  A shallow embedding of \<^verbatim>\<open>MoveBinaryData.execute\<close>
  (\<^verbatim>\<open>packages/nodes-base/nodes/MoveBinaryData.node.ts\<close>). The node walks over a batch
  of items; each item has a \<^verbatim>\<open>json\<close> side and an optional \<^verbatim>\<open>binary\<close> side, and the
  node moves one value from one side to the other.

  The function \<^verbatim>\<open>execute\<close> is embedded statement by statement. What it calls from
  outside the repository (lodash, \<^verbatim>\<open>JSON\<close>, Node's \<^verbatim>\<open>Buffer\<close>) is modelled below,
  each model under a comment that says what it covers.
\<close>

subsection \<open>JavaScript values\<close>

text \<open>
  The values on both sides of an item are JSON trees. An object is an association list
  in insertion order. A string is the list of the bytes of its UTF-8 encoding.

  A number is a finite decimal, which is what a JSON numeral denotes and what
  JavaScript prints for a number: \<open>JNum i\<close> is the integer \<open>i\<close>, and \<open>JDec m d\<close> is
  \<open>m / 10 ^ d\<close> for a number that is not an integer, so with \<open>0 < d\<close> and \<open>m\<close> no
  multiple of 10. The rounding of a long numeral to a double is floating point and
  outside this model.

  The keys of a JavaScript object are unique and a number has one form: that is the
  predicate \<open>wf_json\<close> below.
\<close>

datatype json =
    JNull
  | JBool bool
  | JNum int
  | JDec int nat
  | JStr string
  | JArr "json list"
  | JObj "(string \<times> json) list"

primrec wf_json :: "json \<Rightarrow> bool" where
  "wf_json JNull = True"
| "wf_json (JBool b) = True"
| "wf_json (JNum n) = True"
| "wf_json (JDec m d) = (0 < d \<and> m mod 10 \<noteq> 0)"
| "wf_json (JStr s) = True"
| "wf_json (JArr vs) = list_all (\<lambda>b. b) (map wf_json vs)"
| "wf_json (JObj kvs) =
     (distinct (map fst kvs) \<and> list_all snd (map (map_prod id wf_json) kvs))"

definition is_object :: "json \<Rightarrow> bool" where
  "is_object v = (case v of JObj kvs \<Rightarrow> True | _ \<Rightarrow> False)"

datatype error = Error string | SyntaxError | TypeError

subsection \<open>lodash: get, set, unset\<close>

text \<open>
  Modelled from the spec: lodash's \<^verbatim>\<open>get\<close>, \<^verbatim>\<open>set\<close> and \<^verbatim>\<open>unset\<close>, an external
  library. The spec (section 6) gives their contract: a path is a dot-separated string,
  each segment a literal map key; \<^verbatim>\<open>get\<close> yields the value or absent, \<^verbatim>\<open>set\<close> creates
  intermediate map levels as needed, \<^verbatim>\<open>unset\<close> is a no-op on an absent path. Only
  maps have keys: lodash's bracket syntax and its indexing into arrays and strings are
  not part of that contract and not modelled. \<open>None\<close> is JavaScript's
  \<^verbatim>\<open>undefined\<close>.
\<close>

fun split_path :: "string \<Rightarrow> string list" where
  "split_path [] = [[]]"
| "split_path (c # cs) =
     (if c = CHR ''.'' then [] # split_path cs
      else (case split_path cs of [] \<Rightarrow> [[c]] | s # ss \<Rightarrow> (c # s) # ss))"

fun get_path :: "json \<Rightarrow> string list \<Rightarrow> json option" where
  "get_path v [] = Some v"
| "get_path (JObj kvs) (k # ks) =
     (case map_of kvs k of None \<Rightarrow> None | Some c \<Rightarrow> get_path c ks)"
| "get_path v (k # ks) = None"

definition lodash_get :: "json option \<Rightarrow> string \<Rightarrow> json option" where
  "lodash_get obj path =
     (case obj of None \<Rightarrow> None | Some t \<Rightarrow> get_path t (split_path path))"

definition entries :: "json \<Rightarrow> (string \<times> json) list" where
  "entries v = (case v of JObj kvs \<Rightarrow> kvs | _ \<Rightarrow> [])"

definition child :: "json \<Rightarrow> string \<Rightarrow> json" where
  "child v k = (case map_of (entries v) k of None \<Rightarrow> JNull | Some c \<Rightarrow> c)"

text \<open>
  \<open>set_path\<close> below the root: a level that is not a map (missing, or a scalar) is
  replaced by a fresh map, a new key goes to the end.
\<close>

fun set_path :: "json \<Rightarrow> string list \<Rightarrow> json \<Rightarrow> json" where
  "set_path t [] v = v"
| "set_path t (k # ks) v =
     JObj (AList.update k (set_path (child t k) ks v) (entries t))"

text \<open>lodash returns a root that is not an object as it is.\<close>

definition lodash_set :: "json \<Rightarrow> string \<Rightarrow> json \<Rightarrow> json" where
  "lodash_set obj path v =
     (if is_object obj then set_path obj (split_path path) v else obj)"

fun unset_path :: "json \<Rightarrow> string list \<Rightarrow> json" where
  "unset_path t [] = t"
| "unset_path (JObj kvs) [k] = JObj (AList.delete k kvs)"
| "unset_path (JObj kvs) (k # ks) =
     (case map_of kvs k of
        None \<Rightarrow> JObj kvs
      | Some c \<Rightarrow> JObj (AList.update k (unset_path c ks) kvs))"
| "unset_path t (k # ks) = t"

definition lodash_unset :: "json \<Rightarrow> string \<Rightarrow> json" where
  "lodash_unset obj path = unset_path obj (split_path path)"

subsection \<open>JSON.stringify\<close>

text \<open>
  Modelled from the spec: the structured-data serializer (section 6), JavaScript's
  \<^verbatim>\<open>JSON.stringify\<close> with one argument: no white space, the members of an object in
  their order, in a string the quote, the backslash and the control characters
  escaped. A number is printed as JavaScript's \<^verbatim>\<open>Number::toString\<close> prints it. When
  the decimal point stands after the first \<open>n\<close> of the significant digits (zeros
  standing for the digits that are missing), that is: the digits, with zeros behind
  them or with the point inside, when \<open>0 < n \<le> 21\<close>; the digits after \<^verbatim>\<open>0.\<close> and zeros
  when \<open>-6 < n \<le> 0\<close>; the notation with an exponent otherwise.
\<close>

definition hexdigit :: "nat \<Rightarrow> char" where
  "hexdigit n = (if n < 10 then char_of (48 + n) else char_of (87 + n))"

definition escape_char :: "char \<Rightarrow> string" where
  "escape_char c =
     (if c = CHR 0x22 then [CHR 0x5C, CHR 0x22]
      else if c = CHR 0x5C then [CHR 0x5C, CHR 0x5C]
      else if c = CHR 0x08 then [CHR 0x5C, CHR ''b'']
      else if c = CHR 0x0C then [CHR 0x5C, CHR ''f'']
      else if c = CHR 0x0A then [CHR 0x5C, CHR ''n'']
      else if c = CHR 0x0D then [CHR 0x5C, CHR ''r'']
      else if c = CHR 0x09 then [CHR 0x5C, CHR ''t'']
      else if (of_char c :: nat) < 32 then
        [CHR 0x5C, CHR ''u'', CHR ''0'', CHR ''0'',
         hexdigit (of_char c div 16), hexdigit (of_char c mod 16)]
      else [c])"

definition quote :: "string \<Rightarrow> string" where
  "quote s = CHR 0x22 # concat (map escape_char s) @ [CHR 0x22]"

fun digits10 :: "nat \<Rightarrow> string" where
  "digits10 n =
     (if n < 10 then [char_of (48 + n)]
      else digits10 (n div 10) @ [char_of (48 + n mod 10)])"

declare digits10.simps [simp del]

text \<open>The digits of a numeral without the zeros at its end.\<close>

definition significant :: "string \<Rightarrow> string" where
  "significant ds = rev (dropWhile (\<lambda>c. c = CHR ''0'') (rev ds))"

text \<open>
  The significant digits \<open>ds\<close> with the decimal point after the first \<open>n\<close> of them,
  in the notation with an exponent, and in the notation \<^verbatim>\<open>Number::toString\<close> chooses
  for a number that is not an integer.
\<close>

definition exponent_text :: "string \<Rightarrow> int \<Rightarrow> string" where
  "exponent_text ds n =
     (case ds of
        [] \<Rightarrow> []
      | c # t \<Rightarrow>
          c # (if t = [] then [] else CHR ''.'' # t) @
          CHR ''e'' # (if n < 1 then CHR ''-'' else CHR ''+'') # digits10 (nat \<bar>n - 1\<bar>))"

definition fraction_text :: "string \<Rightarrow> int \<Rightarrow> string" where
  "fraction_text ds n =
     (if 0 < n \<and> n \<le> 21 then take (nat n) ds @ CHR ''.'' # drop (nat n) ds
      else if - 6 < n \<and> n \<le> 0 then ''0.'' @ replicate (nat (- n)) CHR ''0'' @ ds
      else exponent_text ds n)"

definition nat_text :: "nat \<Rightarrow> string" where
  "nat_text n =
     (let ds = digits10 n in
      if length ds \<le> 21 then ds else exponent_text (significant ds) (int (length ds)))"

definition show_int :: "int \<Rightarrow> string" where
  "show_int i = (if i < 0 then CHR ''-'' # nat_text (nat (- i)) else nat_text (nat i))"

definition show_dec :: "int \<Rightarrow> nat \<Rightarrow> string" where
  "show_dec m d =
     (let ds = digits10 (nat \<bar>m\<bar>); t = fraction_text ds (int (length ds) - int d)
      in if m < 0 then CHR ''-'' # t else t)"

fun commas :: "string list \<Rightarrow> string" where
  "commas [] = []"
| "commas [s] = s"
| "commas (s # t # ts) = s @ CHR '','' # commas (t # ts)"

definition member_text :: "string \<times> string \<Rightarrow> string" where
  "member_text ks = quote (fst ks) @ CHR '':'' # snd ks"

primrec JSON_stringify :: "json \<Rightarrow> string" where
  "JSON_stringify JNull = ''null''"
| "JSON_stringify (JBool b) = (if b then ''true'' else ''false'')"
| "JSON_stringify (JNum n) = show_int n"
| "JSON_stringify (JDec m d) = show_dec m d"
| "JSON_stringify (JStr s) = quote s"
| "JSON_stringify (JArr vs) = CHR ''['' # commas (map JSON_stringify vs) @ '']''"
| "JSON_stringify (JObj kvs) =
     CHR ''{'' # commas (map member_text (map (map_prod id JSON_stringify) kvs)) @ ''}''"

subsection \<open>JSON.parse\<close>

text \<open>
  Modelled from the spec: the parser of the same notation, JavaScript's
  \<^verbatim>\<open>JSON.parse\<close>: a recursive-descent parser of the JSON grammar with white space
  between tokens. \<open>None\<close> is the \<^verbatim>\<open>SyntaxError\<close> that \<^verbatim>\<open>JSON.parse\<close> raises. A
  repeated key keeps its first place and its last value, as in JavaScript. A numeral
  is an optional minus sign, the digits of an integer (\<^verbatim>\<open>0\<close>, or digits that do not
  start with \<^verbatim>\<open>0\<close>), an optional fraction (a point and at least one digit) and an
  optional exponent (\<^verbatim>\<open>e\<close> or \<^verbatim>\<open>E\<close>, an optional sign and at least one digit); its
  value is the number it denotes, an integer as \<open>JNum\<close>.

  The parser recurses on a counter that goes down with every nested call;
  \<open>JSON_parse\<close> starts it at the length of the text. That is enough for every
  text: a text that parses with some counter parses with this one (lemma
  \<open>JSON_parse_fuel\<close> below).
\<close>

definition is_ws :: "char \<Rightarrow> bool" where
  "is_ws c = (c = CHR 0x20 \<or> c = CHR 0x09 \<or> c = CHR 0x0A \<or> c = CHR 0x0D)"

definition is_digit :: "char \<Rightarrow> bool" where
  "is_digit c = (48 \<le> (of_char c :: nat) \<and> (of_char c :: nat) \<le> 57)"

fun skip_ws :: "string \<Rightarrow> string" where
  "skip_ws [] = []"
| "skip_ws (c # cs) = (if is_ws c then skip_ws cs else c # cs)"

definition span_digits :: "string \<Rightarrow> string \<times> string" where
  "span_digits s = (takeWhile is_digit s, dropWhile is_digit s)"

definition digits_val :: "string \<Rightarrow> nat" where
  "digits_val ds = foldl (\<lambda>acc c. acc * 10 + (of_char c - 48)) 0 ds"

text \<open>The digits of the integer part, and the text after them.\<close>

definition parse_int_digits :: "string \<Rightarrow> (string \<times> string) option" where
  "parse_int_digits s =
     (case s of
        [] \<Rightarrow> None
      | c # cs \<Rightarrow>
          if c = CHR ''0'' then Some ([c], cs)
          else if is_digit c then Some (span_digits (c # cs))
          else None)"

text \<open>The digits of the fraction, none when there is no fraction.\<close>

definition parse_frac :: "string \<Rightarrow> (string \<times> string) option" where
  "parse_frac s =
     (case s of
        [] \<Rightarrow> Some ([], [])
      | c # cs \<Rightarrow>
          if c = CHR ''.'' then
            (case span_digits cs of
               (fs, r) \<Rightarrow> if fs = [] then None else Some (fs, r))
          else Some ([], c # cs))"

text \<open>The exponent, 0 when there is none.\<close>

definition parse_exp :: "string \<Rightarrow> (int \<times> string) option" where
  "parse_exp s =
     (case s of
        [] \<Rightarrow> Some (0, [])
      | c # cs \<Rightarrow>
          if c = CHR ''e'' \<or> c = CHR ''E'' then
            (case (case cs of
                     [] \<Rightarrow> (False, [])
                   | g # t \<Rightarrow>
                       if g = CHR ''-'' then (True, t)
                       else if g = CHR ''+'' then (False, t)
                       else (False, g # t)) of
               (neg, u) \<Rightarrow>
                 (case span_digits u of
                    (xs, r) \<Rightarrow>
                      if xs = [] then None
                      else Some (if neg then - int (digits_val xs) else int (digits_val xs), r)))
          else Some (0, c # cs))"

text \<open>
  \<open>strip_zeros m d\<close> is \<open>m / 10 ^ d\<close> with as few decimal places as it needs, and
  \<open>make_number\<close> is the number \<open>m * 10 ^ e\<close> with its sign.
\<close>

fun strip_zeros :: "nat \<Rightarrow> nat \<Rightarrow> nat \<times> nat" where
  "strip_zeros m 0 = (m, 0)"
| "strip_zeros m (Suc d) = (if m mod 10 = 0 then strip_zeros (m div 10) d else (m, Suc d))"

definition make_number :: "bool \<Rightarrow> nat \<Rightarrow> int \<Rightarrow> json" where
  "make_number neg m e =
     (if 0 \<le> e then JNum (if neg then - int (m * 10 ^ nat e) else int (m * 10 ^ nat e))
      else
        (case strip_zeros m (nat (- e)) of
           (m', d) \<Rightarrow>
             if d = 0 then JNum (if neg then - int m' else int m')
             else JDec (if neg then - int m' else int m') d))"

definition parse_number :: "string \<Rightarrow> (json \<times> string) option" where
  "parse_number s =
     (case s of
        [] \<Rightarrow> None
      | c # cs \<Rightarrow>
          (case parse_int_digits (if c = CHR ''-'' then cs else c # cs) of
             None \<Rightarrow> None
           | Some (ids, r1) \<Rightarrow>
               (case parse_frac r1 of
                  None \<Rightarrow> None
                | Some (fs, r2) \<Rightarrow>
                    (case parse_exp r2 of
                       None \<Rightarrow> None
                     | Some (x, r3) \<Rightarrow>
                         Some (make_number (c = CHR ''-'') (digits_val (ids @ fs))
                                 (x - int (length fs)), r3)))))"

text \<open>A text that cannot go on a numeral that ends before it.\<close>

definition number_end :: "string \<Rightarrow> bool" where
  "number_end s =
     (case s of
        [] \<Rightarrow> True
      | c # cs \<Rightarrow> \<not> is_digit c \<and> c \<noteq> CHR ''.'' \<and> c \<noteq> CHR ''e'' \<and> c \<noteq> CHR ''E'')"

definition hexval :: "char \<Rightarrow> nat option" where
  "hexval c =
     (let n = (of_char c :: nat) in
      if 48 \<le> n \<and> n \<le> 57 then Some (n - 48)
      else if 97 \<le> n \<and> n \<le> 102 then Some (n - 87)
      else if 65 \<le> n \<and> n \<le> 70 then Some (n - 55)
      else None)"

definition hex4 :: "char \<Rightarrow> char \<Rightarrow> char \<Rightarrow> char \<Rightarrow> nat option" where
  "hex4 a b c d =
     (case (hexval a, hexval b, hexval c, hexval d) of
        (Some x, Some y, Some z, Some w) \<Rightarrow> Some (((x * 16 + y) * 16 + z) * 16 + w)
      | _ \<Rightarrow> None)"

text \<open>The UTF-8 bytes of a code point.\<close>

definition utf8_of :: "nat \<Rightarrow> string" where
  "utf8_of n =
     (if n < 128 then [char_of n]
      else if n < 2048 then [char_of (192 + n div 64), char_of (128 + n mod 64)]
      else if n < 65536 then
        [char_of (224 + n div 4096), char_of (128 + n div 64 mod 64), char_of (128 + n mod 64)]
      else
        [char_of (240 + n div 262144), char_of (128 + n div 4096 mod 64),
         char_of (128 + n div 64 mod 64), char_of (128 + n mod 64)])"

definition unescape :: "char \<Rightarrow> char option" where
  "unescape e =
     (if e = CHR 0x22 then Some (CHR 0x22)
      else if e = CHR 0x5C then Some (CHR 0x5C)
      else if e = CHR ''/'' then Some (CHR ''/'')
      else if e = CHR ''b'' then Some (CHR 0x08)
      else if e = CHR ''f'' then Some (CHR 0x0C)
      else if e = CHR ''n'' then Some (CHR 0x0A)
      else if e = CHR ''r'' then Some (CHR 0x0D)
      else if e = CHR ''t'' then Some (CHR 0x09)
      else None)"

text \<open>
  The low half of a surrogate pair, when the text goes on with one (an escape of six
  characters).
\<close>

definition low_surrogate :: "string \<Rightarrow> nat option" where
  "low_surrogate s =
     (case s of
        b # u # x # y # z # w # r \<Rightarrow>
          if b = CHR 0x5C \<and> u = CHR ''u'' then
            (case hex4 x y z w of
               None \<Rightarrow> None
             | Some m \<Rightarrow> if 56320 \<le> m \<and> m < 57344 then Some m else None)
          else None
      | _ \<Rightarrow> None)"

text \<open>
  The characters of a string literal, after its opening quote: the string and the text
  after its closing quote.
\<close>

fun parse_string_chars :: "string \<Rightarrow> (string \<times> string) option" where
  "parse_string_chars [] = None"
| "parse_string_chars (c # cs) =
     (if c = CHR 0x22 then Some ([], cs)
      else if c = CHR 0x5C then
        (case cs of
           [] \<Rightarrow> None
         | e # r \<Rightarrow>
             if e = CHR ''u'' then
               (case r of
                  x # y # z # w # r' \<Rightarrow>
                    (case hex4 x y z w of
                       None \<Rightarrow> None
                     | Some h \<Rightarrow>
                         (case (if 55296 \<le> h \<and> h < 56320 then low_surrogate r' else None) of
                            Some l \<Rightarrow>
                              map_option
                                (\<lambda>(s, t). (utf8_of (65536 + (h - 55296) * 1024 + (l - 56320)) @ s, t))
                                (parse_string_chars (drop 6 r'))
                          | None \<Rightarrow>
                              map_option (\<lambda>(s, t). (utf8_of h @ s, t)) (parse_string_chars r')))
                | _ \<Rightarrow> None)
             else
               (case unescape e of
                  None \<Rightarrow> None
                | Some ch \<Rightarrow> map_option (\<lambda>(s, t). (ch # s, t)) (parse_string_chars r)))
      else if (of_char c :: nat) < 32 then None
      else map_option (\<lambda>(s, t). (c # s, t)) (parse_string_chars cs))"

definition expect :: "string \<Rightarrow> string \<Rightarrow> json \<Rightarrow> (json \<times> string) option" where
  "expect w s v = (if take (length w) s = w then Some (v, drop (length w) s) else None)"

definition dedupe :: "(string \<times> json) list \<Rightarrow> (string \<times> json) list" where
  "dedupe kvs = foldl (\<lambda>acc kv. AList.update (fst kv) (snd kv) acc) [] kvs"

fun parse_value :: "nat \<Rightarrow> string \<Rightarrow> (json \<times> string) option"
  and parse_elems :: "nat \<Rightarrow> string \<Rightarrow> (json list \<times> string) option"
  and parse_members :: "nat \<Rightarrow> string \<Rightarrow> ((string \<times> json) list \<times> string) option"
where
  "parse_value 0 s = None"
| "parse_value (Suc n) s =
     (case skip_ws s of
        [] \<Rightarrow> None
      | c # r \<Rightarrow>
          if c = CHR ''n'' then expect ''ull'' r JNull
          else if c = CHR ''t'' then expect ''rue'' r (JBool True)
          else if c = CHR ''f'' then expect ''alse'' r (JBool False)
          else if c = CHR 0x22 then
            map_option (\<lambda>(x, t). (JStr x, t)) (parse_string_chars r)
          else if c = CHR ''['' then
            (case skip_ws r of
               [] \<Rightarrow> None
             | d # t \<Rightarrow>
                 if d = CHR '']'' then Some (JArr [], t)
                 else map_option (\<lambda>(vs, u). (JArr vs, u)) (parse_elems n r))
          else if c = CHR ''{'' then
            (case skip_ws r of
               [] \<Rightarrow> None
             | d # t \<Rightarrow>
                 if d = CHR ''}'' then Some (JObj [], t)
                 else map_option (\<lambda>(kvs, u). (JObj (dedupe kvs), u)) (parse_members n r))
          else parse_number (c # r))"
| "parse_elems 0 s = None"
| "parse_elems (Suc n) s =
     (case parse_value n s of
        None \<Rightarrow> None
      | Some (v, r) \<Rightarrow>
          (case skip_ws r of
             [] \<Rightarrow> None
           | d # t \<Rightarrow>
               if d = CHR '','' then
                 map_option (\<lambda>(vs, u). (v # vs, u)) (parse_elems n t)
               else if d = CHR '']'' then Some ([v], t)
               else None))"
| "parse_members 0 s = None"
| "parse_members (Suc n) s =
     (case skip_ws s of
        [] \<Rightarrow> None
      | q # r \<Rightarrow>
          if q = CHR 0x22 then
            (case parse_string_chars r of
               None \<Rightarrow> None
             | Some (k, r1) \<Rightarrow>
                 (case skip_ws r1 of
                    [] \<Rightarrow> None
                  | col # r2 \<Rightarrow>
                      if col = CHR '':'' then
                        (case parse_value n r2 of
                           None \<Rightarrow> None
                         | Some (v, r3) \<Rightarrow>
                             (case skip_ws r3 of
                                [] \<Rightarrow> None
                              | d # t \<Rightarrow>
                                  if d = CHR '','' then
                                    map_option (\<lambda>(kvs, u). ((k, v) # kvs, u)) (parse_members n t)
                                  else if d = CHR ''}'' then Some ([(k, v)], t)
                                  else None))
                      else None))
          else None)"

definition JSON_parse :: "string \<Rightarrow> json option" where
  "JSON_parse s =
     (case parse_value (length s) s of
        None \<Rightarrow> None
      | Some (v, r) \<Rightarrow> if skip_ws r = [] then Some v else None)"

subsection \<open>Base64\<close>

text \<open>
  Modelled from the spec: the byte-string to base64 utility (section 6), Node's
  \<^verbatim>\<open>Buffer.from(s, 'base64')\<close> and \<^verbatim>\<open>buf.toString('base64')\<close>. The encoder is the
  standard one, with padding. The decoder is Node's lenient one: it stops at the first
  \<^verbatim>\<open>=\<close>, skips every character outside the alphabet, accepts the URL-safe \<^verbatim>\<open>-\<close> and
  \<^verbatim>\<open>_\<close>, and never raises. A byte is a \<open>char\<close>.
\<close>

definition b64_char :: "nat \<Rightarrow> char" where
  "b64_char n =
     (if n < 26 then char_of (65 + n)
      else if n < 52 then char_of (71 + n)
      else if n < 62 then char_of (n - 4)
      else if n = 62 then CHR ''+''
      else CHR ''/'')"

definition b64_val :: "char \<Rightarrow> nat option" where
  "b64_val c =
     (let n = (of_char c :: nat) in
      if 65 \<le> n \<and> n \<le> 90 then Some (n - 65)
      else if 97 \<le> n \<and> n \<le> 122 then Some (n - 71)
      else if 48 \<le> n \<and> n \<le> 57 then Some (n + 4)
      else if c = CHR ''+'' \<or> c = CHR ''-'' then Some 62
      else if c = CHR ''/'' \<or> c = CHR ''_'' then Some 63
      else None)"

fun base64_encode :: "string \<Rightarrow> string" where
  "base64_encode [] = []"
| "base64_encode [a] =
     (let x = (of_char a :: nat) in
      [b64_char (x div 4), b64_char (x mod 4 * 16), CHR ''='', CHR ''=''])"
| "base64_encode [a, b] =
     (let x = (of_char a :: nat); y = (of_char b :: nat) in
      [b64_char (x div 4), b64_char (x mod 4 * 16 + y div 16), b64_char (y mod 16 * 4),
       CHR ''=''])"
| "base64_encode (a # b # c # r) =
     (let x = (of_char a :: nat); y = (of_char b :: nat); z = (of_char c :: nat) in
      b64_char (x div 4) # b64_char (x mod 4 * 16 + y div 16) #
      b64_char (y mod 16 * 4 + z div 64) # b64_char (z mod 64) # base64_encode r)"

fun from_sextets :: "nat list \<Rightarrow> string" where
  "from_sextets (p # q # r # s # t) =
     char_of (p * 4 + q div 16) # char_of (q mod 16 * 16 + r div 4) #
     char_of (r mod 4 * 64 + s) # from_sextets t"
| "from_sextets [p, q, r] = [char_of (p * 4 + q div 16), char_of (q mod 16 * 16 + r div 4)]"
| "from_sextets [p, q] = [char_of (p * 4 + q div 16)]"
| "from_sextets t = []"

definition base64_decode :: "string \<Rightarrow> string" where
  "base64_decode s =
     from_sextets (List.map_filter b64_val (takeWhile (\<lambda>c. c \<noteq> CHR ''='') s))"

subsection \<open>Node's Buffer\<close>

text \<open>
  Two operations of \<^verbatim>\<open>Buffer\<close> are taken as parameters, so that every theorem holds
  for whatever Node does there:
  \<^item> \<open>bufferToString enc bytes\<close> is \<^verbatim>\<open>buf.toString(enc)\<close>, the text of the bytes in
    the named encoding, or the \<^verbatim>\<open>TypeError\<close> of an unknown encoding;
  \<^item> \<open>bufferFromObject v\<close> is \<^verbatim>\<open>Buffer.from(v)\<close> for an array or an object \<open>v\<close>: the
    bytes of an array-like, a \<^verbatim>\<open>TypeError\<close> otherwise.

  \<^verbatim>\<open>Buffer.from\<close> of a string gives its bytes (decoded from base64 when that encoding
  is named), and raises a \<^verbatim>\<open>TypeError\<close> for \<^verbatim>\<open>undefined\<close>, \<^verbatim>\<open>null\<close>, a boolean or a
  number.
\<close>

record node_api =
  bufferFromObject :: "json \<Rightarrow> error + string"
  bufferToString :: "string \<Rightarrow> string \<Rightarrow> error + string"

definition Buffer_from_base64 :: "node_api \<Rightarrow> json option \<Rightarrow> error + string" where
  "Buffer_from_base64 api d =
     (case d of
        Some (JStr s) \<Rightarrow> Inr (base64_decode s)
      | Some (JArr vs) \<Rightarrow> bufferFromObject api (JArr vs)
      | Some (JObj kvs) \<Rightarrow> bufferFromObject api (JObj kvs)
      | _ \<Rightarrow> Inl TypeError)"

definition Buffer_from :: "node_api \<Rightarrow> json \<Rightarrow> error + string" where
  "Buffer_from api v =
     (case v of
        JStr s \<Rightarrow> Inr s
      | JArr vs \<Rightarrow> bufferFromObject api (JArr vs)
      | JObj kvs \<Rightarrow> bufferFromObject api (JObj kvs)
      | _ \<Rightarrow> Inl TypeError)"

text \<open>
  The property access \<^verbatim>\<open>value.data\<close>: a \<^verbatim>\<open>TypeError\<close> on \<^verbatim>\<open>null\<close>, the member of an
  object, \<^verbatim>\<open>undefined\<close> on anything else.
\<close>

definition prop_data :: "json \<Rightarrow> error + json option" where
  "prop_data v =
     (case v of
        JNull \<Rightarrow> Inl TypeError
      | JObj kvs \<Rightarrow> Inr (map_of kvs ''data'')
      | _ \<Rightarrow> Inr None)"

text \<open>
  Exceptions: \<open>Inl e\<close> is a raised \<open>e\<close>, and \<open>and_then m f\<close> goes on with \<open>f\<close> when
  \<open>m\<close> raised nothing.
\<close>

definition and_then :: "error + 'a \<Rightarrow> ('a \<Rightarrow> error + 'b) \<Rightarrow> error + 'b" where
  "and_then m f = (case m of Inl e \<Rightarrow> Inl e | Inr x \<Rightarrow> f x)"

definition JSON_parse_or_raise :: "string \<Rightarrow> error + json" where
  "JSON_parse_or_raise s = (case JSON_parse s of None \<Rightarrow> Inl SyntaxError | Some j \<Rightarrow> Inr j)"

text \<open>The copy \<^verbatim>\<open>JSON.parse(JSON.stringify(x))\<close>.\<close>

definition deep_copy :: "json \<Rightarrow> error + json" where
  "deep_copy x = JSON_parse_or_raise (JSON_stringify x)"

subsection \<open>Items and parameters\<close>

text \<open>
  An item is \<^verbatim>\<open>INodeExecutionData\<close>: \<^verbatim>\<open>json\<close>, and \<^verbatim>\<open>binary\<close> or \<^verbatim>\<open>undefined\<close>.

  The parameters are what \<^verbatim>\<open>this.getNodeParameter\<close> answers. \<^verbatim>\<open>mode\<close> and \<^verbatim>\<open>options\<close>
  are read at item index 0, the others at the index of the item, so they are functions
  of the index. In \<^verbatim>\<open>options\<close> a boolean that is not set counts as \<open>False\<close> (the code
  tests \<^verbatim>\<open>=== true\<close>, \<^verbatim>\<open>!== true\<close> and truthiness); \<^verbatim>\<open>encoding\<close> and \<^verbatim>\<open>mimeType\<close>
  may be left out.
\<close>

record item =
  json :: json
  binary :: "json option"

record options =
  encoding :: "string option"
  jsonParse :: bool
  keepSource :: bool
  mimeType :: "string option"
  useRawData :: bool

record params =
  mode :: string
  options :: options
  setAllData :: "nat \<Rightarrow> bool"
  sourceKey :: "nat \<Rightarrow> string"
  destinationKey :: "nat \<Rightarrow> string"
  convertAllData :: "nat \<Rightarrow> bool"

text \<open>\<^verbatim>\<open>x || d\<close> on an optional string: \<^verbatim>\<open>undefined\<close> and the empty string are falsy.\<close>

definition or_default :: "string option \<Rightarrow> string \<Rightarrow> string" where
  "or_default x d = (case x of None \<Rightarrow> d | Some s \<Rightarrow> if s = [] then d else s)"

subsection \<open>execute\<close>

text \<open>
  The body of the loop for one item, by mode. \<open>Inl e\<close> is a raised exception,
  \<open>Inr None\<close> is \<^verbatim>\<open>continue\<close> (no data found, so skip), \<open>Inr (Some newItem)\<close> reaches
  \<^verbatim>\<open>returnData.push(newItem)\<close>. Each branch is in two parts: the test for a value at
  the source, and what the code does with a value it found.

  In the mode \<^verbatim>\<open>binaryToJson\<close> the copy of \<^verbatim>\<open>item.binary\<close> is taken only after \<^verbatim>\<open>get\<close>
  found a value in it, so \<^verbatim>\<open>item.binary\<close> is defined there; on \<^verbatim>\<open>undefined\<close> the copy
  would raise (\<^verbatim>\<open>JSON.stringify(undefined)\<close> is \<^verbatim>\<open>undefined\<close>, which \<^verbatim>\<open>JSON.parse\<close>
  rejects), and the model says so.
\<close>

definition binaryToJson_value ::
  "node_api \<Rightarrow> params \<Rightarrow> nat \<Rightarrow> item \<Rightarrow> json \<Rightarrow> error + item" where
  "binaryToJson_value api p itemIndex it v =
     and_then (prop_data v) (\<lambda>d.
     and_then (Buffer_from_base64 api d) (\<lambda>buf.
     and_then (bufferToString api (or_default (encoding (options p)) ''utf8'') buf)
       (\<lambda>convertedValue.
     and_then
       (if setAllData p itemIndex then JSON_parse_or_raise convertedValue
        else
          and_then (deep_copy (json it)) (\<lambda>copy.
          and_then
            (if jsonParse (options p) then JSON_parse_or_raise convertedValue
             else Inr (JStr convertedValue))
            (\<lambda>cv. Inr (lodash_set copy (destinationKey p itemIndex) cv))))
       (\<lambda>newJson.
     and_then
       (if keepSource (options p) then Inr (binary it)
        else
          and_then (case binary it of None \<Rightarrow> Inl SyntaxError | Some b \<Rightarrow> deep_copy b)
            (\<lambda>copy. Inr (Some (lodash_unset copy (sourceKey p itemIndex)))))
       (\<lambda>newBinary. Inr \<lparr>json = newJson, binary = newBinary\<rparr>)))))"

definition binaryToJson :: "node_api \<Rightarrow> params \<Rightarrow> nat \<Rightarrow> item \<Rightarrow> error + item option" where
  "binaryToJson api p itemIndex it =
     (case lodash_get (binary it) (sourceKey p itemIndex) of
        None \<Rightarrow> Inr None
      | Some v \<Rightarrow>
          and_then (binaryToJson_value api p itemIndex it v) (\<lambda>newItem. Inr (Some newItem)))"

definition jsonToBinary_value ::
  "node_api \<Rightarrow> params \<Rightarrow> nat \<Rightarrow> item \<Rightarrow> json \<Rightarrow> error + item" where
  "jsonToBinary_value api p itemIndex it v =
     and_then (case binary it of Some b \<Rightarrow> deep_copy b | None \<Rightarrow> Inr (JObj []))
       (\<lambda>newBinary.
     and_then
       (Buffer_from api (if useRawData (options p) then v else JStr (JSON_stringify v)))
       (\<lambda>buf.
     (let convertedValue =
            JObj [(''data'', JStr (base64_encode buf)),
                  (''mimeType'', JStr (or_default (mimeType (options p)) ''application/json''))];
          newBinary' = lodash_set newBinary (destinationKey p itemIndex) convertedValue
      in
     and_then
       (if keepSource (options p) then Inr (json it)
        else if convertAllData p itemIndex then Inr (JObj [])
        else
          and_then (deep_copy (json it))
            (\<lambda>copy. Inr (lodash_unset copy (sourceKey p itemIndex))))
       (\<lambda>newJson. Inr \<lparr>json = newJson, binary = Some newBinary'\<rparr>))))"

definition jsonToBinary :: "node_api \<Rightarrow> params \<Rightarrow> nat \<Rightarrow> item \<Rightarrow> error + item option" where
  "jsonToBinary api p itemIndex it =
     (case
        (if convertAllData p itemIndex then Some (json it)
         else lodash_get (Some (json it)) (sourceKey p itemIndex))
      of None \<Rightarrow> Inr None
       | Some v \<Rightarrow>
           and_then (jsonToBinary_value api p itemIndex it v) (\<lambda>newItem. Inr (Some newItem)))"

definition unknown_operation :: "string \<Rightarrow> string" where
  "unknown_operation m = ''The operation '' @ [CHR 0x22] @ m @ [CHR 0x22] @ '' is not known!''"

definition loop_body :: "node_api \<Rightarrow> params \<Rightarrow> nat \<Rightarrow> item \<Rightarrow> error + item option" where
  "loop_body api p itemIndex it =
     (if mode p = ''binaryToJson'' then binaryToJson api p itemIndex it
      else if mode p = ''jsonToBinary'' then jsonToBinary api p itemIndex it
      else Inl (Error (unknown_operation (mode p))))"

text \<open>
  The loop over \<^verbatim>\<open>items\<close>, from \<^verbatim>\<open>itemIndex\<close> on, with \<^verbatim>\<open>returnData\<close> as it stands. An
  exception leaves the loop and \<^verbatim>\<open>execute\<close>: nothing is returned.
\<close>

fun run_items ::
  "node_api \<Rightarrow> params \<Rightarrow> nat \<Rightarrow> item list \<Rightarrow> item list \<Rightarrow> error + item list" where
  "run_items api p itemIndex [] returnData = Inr returnData"
| "run_items api p itemIndex (it # rest) returnData =
     (case loop_body api p itemIndex it of
        Inl e \<Rightarrow> Inl e
      | Inr None \<Rightarrow> run_items api p (Suc itemIndex) rest returnData
      | Inr (Some newItem) \<Rightarrow> run_items api p (Suc itemIndex) rest (returnData @ [newItem]))"

text \<open>\<^verbatim>\<open>execute\<close> returns \<^verbatim>\<open>[returnData]\<close>, the data of its one output.\<close>

definition execute :: "node_api \<Rightarrow> params \<Rightarrow> item list \<Rightarrow> error + item list" where
  "execute api p items = run_items api p 0 items []"

subsection \<open>An environment and a configuration for the examples\<close>

text \<open>
  The examples run on payloads of ASCII text, which UTF-8 decodes to itself. The
  environment \<open>node_ascii\<close> decodes \<^verbatim>\<open>utf8\<close> that way, knows no other encoding and
  takes no array-like object; the examples stay inside that.
\<close>

definition node_ascii :: node_api where
  "node_ascii =
     \<lparr>bufferFromObject = (\<lambda>v. Inl TypeError),
      bufferToString = (\<lambda>enc bytes. if enc = ''utf8'' then Inr bytes else Inl TypeError)\<rparr>"

definition no_options :: options where
  "no_options =
     \<lparr>encoding = None, jsonParse = False, keepSource = False, mimeType = None,
      useRawData = False\<rparr>"

text \<open>The configuration a fresh node has, but for the mode.\<close>

definition node_params :: "string \<Rightarrow> options \<Rightarrow> params" where
  "node_params m opts =
     \<lparr>mode = m, options = opts, setAllData = (\<lambda>i. True), sourceKey = (\<lambda>i. ''data''),
      destinationKey = (\<lambda>i. ''data''), convertAllData = (\<lambda>i. True)\<rparr>"

text \<open>
  An item with nothing on its structured side and one payload, at the binary key
  \<^verbatim>\<open>data\<close>, that holds the given text.
\<close>

definition text_item :: "string \<Rightarrow> item" where
  "text_item t =
     \<lparr>json = JObj [],
      binary = Some (JObj [(''data'',
        JObj [(''data'', JStr (base64_encode t)), (''mimeType'', JStr ''text/plain'')])])\<rparr>"

text \<open>
  The configuration that moves one key, \<^verbatim>\<open>data\<close> to \<^verbatim>\<open>data\<close> (\<^verbatim>\<open>setAllData\<close> and
  \<^verbatim>\<open>convertAllData\<close> off), and an item with a nested structured value.
\<close>

definition partial_params :: "string \<Rightarrow> options \<Rightarrow> params" where
  "partial_params m opts =
     \<lparr>mode = m, options = opts, setAllData = (\<lambda>i. False), sourceKey = (\<lambda>i. ''data''),
      destinationKey = (\<lambda>i. ''data''), convertAllData = (\<lambda>i. False)\<rparr>"

definition nested_item :: item where
  "nested_item = \<lparr>json = JObj [(''data'', JObj [(''a'', JNum 1)])], binary = None\<rparr>"

subsection \<open>Words of the claims\<close>

text \<open>
  The output items one input item contributes: the item that reaches
  \<^verbatim>\<open>returnData.push\<close>, if any.
\<close>

definition outputs_of :: "node_api \<Rightarrow> params \<Rightarrow> nat \<Rightarrow> item \<Rightarrow> item list" where
  "outputs_of api p itemIndex it =
     (case loop_body api p itemIndex it of Inr (Some newItem) \<Rightarrow> [newItem] | _ \<Rightarrow> [])"

definition raises :: "node_api \<Rightarrow> params \<Rightarrow> nat \<Rightarrow> item \<Rightarrow> bool" where
  "raises api p itemIndex it =
     (case loop_body api p itemIndex it of Inl e \<Rightarrow> True | Inr r \<Rightarrow> False)"

text \<open>
  The requested source path is absent, in the words of the claims: \<^verbatim>\<open>get\<close> on the
  binary side at \<^verbatim>\<open>sourceKey\<close> in the mode \<^verbatim>\<open>binaryToJson\<close>, \<^verbatim>\<open>get\<close> on the structured
  side at \<^verbatim>\<open>sourceKey\<close> in the mode \<^verbatim>\<open>jsonToBinary\<close> when not all data is converted.
\<close>

definition source_absent :: "params \<Rightarrow> nat \<Rightarrow> item \<Rightarrow> bool" where
  "source_absent p itemIndex it =
     ((mode p = ''binaryToJson'' \<and> lodash_get (binary it) (sourceKey p itemIndex) = None) \<or>
      (mode p = ''jsonToBinary'' \<and> convertAllData p itemIndex = False \<and>
       lodash_get (Some (json it)) (sourceKey p itemIndex) = None))"

text \<open>
  A path \<open>Q\<close> addresses another location than \<open>P\<close>: not the location of \<open>P\<close>, none
  inside it and none that contains it.
\<close>

definition other_path :: "string \<Rightarrow> string \<Rightarrow> bool" where
  "other_path P Q =
     (\<not> prefix (split_path P) (split_path Q) \<and> \<not> prefix (split_path Q) (split_path P))"

text \<open>
  An item whose values are JavaScript values, each in its one form: no object has a key
  twice and every number that is not an integer is in lowest terms. Every item of the
  program is one; the predicate only sets aside the lists and pairs of this model that
  stand for no value.
\<close>

definition wf_values :: "item \<Rightarrow> bool" where
  "wf_values it =
     (wf_json (json it) \<and> (case binary it of None \<Rightarrow> True | Some b \<Rightarrow> wf_json b))"

text \<open>
  An item as its type \<^verbatim>\<open>INodeExecutionData\<close> has it: \<^verbatim>\<open>json\<close> is an object, \<^verbatim>\<open>binary\<close> is
  an object or \<^verbatim>\<open>undefined\<close>, and no object has a key twice.
\<close>

definition wf_item :: "item \<Rightarrow> bool" where
  "wf_item it =
     (is_object (json it) \<and> wf_json (json it) \<and>
      (case binary it of None \<Rightarrow> True | Some b \<Rightarrow> is_object b \<and> wf_json b))"

section \<open>Properties\<close>

subsection \<open>Exceptions and the loop\<close>

lemma and_then_Inr [simp]: "and_then (Inr x) f = f x"
  by (simp add: and_then_def)

lemma and_then_Inl [simp]: "and_then (Inl e) f = Inl e"
  by (simp add: and_then_def)

lemma and_then_eq_Inr:
  "and_then m f = Inr y \<longleftrightarrow> (\<exists>x. m = Inr x \<and> f x = Inr y)"
  by (cases m) simp_all

lemma run_items_Inr:
  "run_items api p i items acc = Inr out \<longleftrightarrow>
     list_all (\<lambda>(j, it). \<not> raises api p j it) (enumerate i items) \<and>
     out = acc @ concat (map (\<lambda>(j, it). outputs_of api p j it) (enumerate i items))"
proof (induction items arbitrary: i acc)
  case Nil
  then show ?case by auto
next
  case (Cons it rest)
  show ?case
  proof (cases "loop_body api p i it")
    case (Inl e)
    then show ?thesis by (simp add: raises_def)
  next
    case (Inr r)
    then show ?thesis
      using Cons.IH [of "Suc i"] by (cases r) (simp_all add: raises_def outputs_of_def)
  qed
qed

lemma run_items_Inl:
  assumes "list_all (\<lambda>(j, it). \<not> raises api p j it) (enumerate i pre)"
    and "loop_body api p (i + length pre) it = Inl e"
  shows "run_items api p i (pre @ it # post) acc = Inl e"
  using assms
proof (induction pre arbitrary: i acc)
  case Nil
  then show ?case by simp
next
  case (Cons a pre)
  from Cons.prems(1) obtain r where r: "loop_body api p i a = Inr r"
    by (cases "loop_body api p i a") (simp_all add: raises_def)
  from Cons.prems have "run_items api p (Suc i) (pre @ it # post) acc' = Inl e" for acc'
    by (intro Cons.IH) simp_all
  with r show ?case by (cases r) simp_all
qed

lemma binaryToJson_skip:
  "binaryToJson api p i it = Inr None \<longleftrightarrow> lodash_get (binary it) (sourceKey p i) = None"
  by (cases "lodash_get (binary it) (sourceKey p i)")
    (simp_all add: binaryToJson_def and_then_eq_Inr)

lemma jsonToBinary_skip:
  "jsonToBinary api p i it = Inr None \<longleftrightarrow>
     convertAllData p i = False \<and> lodash_get (Some (json it)) (sourceKey p i) = None"
  by (cases "lodash_get (Some (json it)) (sourceKey p i)")
    (simp_all add: jsonToBinary_def and_then_eq_Inr)

lemma loop_body_skip:
  "loop_body api p i it = Inr None \<longleftrightarrow> source_absent p i it"
  by (auto simp: loop_body_def source_absent_def binaryToJson_skip jsonToBinary_skip)

lemma count_outputs:
  "list_all (\<lambda>x. length (f x) = (if P x then 0 else 1)) xs \<Longrightarrow>
   length (concat (map f xs)) = length (filter (\<lambda>x. \<not> P x) xs)"
  by (induction xs) auto

lemma outputs_of_length:
  "\<not> raises api p i it \<Longrightarrow>
   length (outputs_of api p i it) = (if source_absent p i it then 0 else 1)"
  using loop_body_skip [of api p i it]
  by (cases "loop_body api p i it")
    (auto simp: raises_def outputs_of_def split: option.splits)

lemma JSON_parse_or_raise_None: "JSON_parse s = None \<Longrightarrow> JSON_parse_or_raise s = Inl SyntaxError"
  by (simp add: JSON_parse_or_raise_def)

lemma deep_copy_cases:
  obtains "deep_copy x = Inl SyntaxError" | y where "deep_copy x = Inr y"
  by (cases "JSON_parse (JSON_stringify x)") (auto simp: deep_copy_def JSON_parse_or_raise_def)

subsection \<open>Parsing a serialized value\<close>

lemma hexval_hexdigit: "n < 16 \<Longrightarrow> hexval (hexdigit n) = Some n"
  by (auto simp: hexval_def hexdigit_def Let_def)

lemma hex4_control:
  "n < 32 \<Longrightarrow> hex4 CHR ''0'' CHR ''0'' (hexdigit (n div 16)) (hexdigit (n mod 16)) = Some n"
proof -
  assume n: "n < 32"
  have z: "hexval CHR ''0'' = Some 0"
    by (simp add: hexval_def)
  from n have "n div 16 < 16" by simp
  then have a: "hexval (hexdigit (n div 16)) = Some (n div 16)"
    by (rule hexval_hexdigit)
  have b: "hexval (hexdigit (n mod 16)) = Some (n mod 16)"
    by (rule hexval_hexdigit) simp
  show ?thesis
    by (simp add: hex4_def z a b)
qed

lemma parse_escape:
  "parse_string_chars (escape_char c @ t) =
     map_option (\<lambda>(s, r). (c # s, r)) (parse_string_chars t)"
proof -
  consider (q) "c = CHR 0x22" | (b) "c = CHR 0x5C" | (bs) "c = CHR 0x08" | (ff) "c = CHR 0x0C"
    | (nl) "c = CHR 0x0A" | (cr) "c = CHR 0x0D" | (tab) "c = CHR 0x09"
    | (ctl) "c \<noteq> CHR 0x22" "c \<noteq> CHR 0x5C" "c \<noteq> CHR 0x08" "c \<noteq> CHR 0x0C" "c \<noteq> CHR 0x0A"
        "c \<noteq> CHR 0x0D" "c \<noteq> CHR 0x09" "(of_char c :: nat) < 32"
    | (plain) "c \<noteq> CHR 0x22" "c \<noteq> CHR 0x5C" "\<not> (of_char c :: nat) < 32"
    by (cases "(of_char c :: nat) < 32") auto
  then show ?thesis
  proof cases
    case ctl
    have h: "hex4 CHR ''0'' CHR ''0'' (hexdigit (of_char c div 16)) (hexdigit (of_char c mod 16)) =
        Some (of_char c)"
      using ctl(8) by (rule hex4_control)
    have u: "utf8_of (of_char c) = [c]"
      using ctl(8) by (simp add: utf8_of_def)
    from ctl show ?thesis
      by (simp add: escape_char_def h u)
  next
    case plain
    then have "escape_char c = [c]"
      by (auto simp: escape_char_def)
    with plain show ?thesis by simp
  qed (simp_all add: escape_char_def unescape_def)
qed

lemma parse_string_chars_quote:
  "parse_string_chars (concat (map escape_char s) @ CHR 0x22 # rest) = Some (s, rest)"
  by (induction s) (simp_all add: parse_escape del: parse_string_chars.simps,
      simp)

lemma digit_char: "n < 10 \<Longrightarrow> is_digit (char_of (48 + n)) \<and> (of_char (char_of (48 + n)) :: nat) = 48 + n"
  by (simp add: is_digit_def)

lemma digits10_first:
  "\<exists>c t. digits10 n = c # t \<and> is_digit c \<and> (0 < n \<longrightarrow> c \<noteq> CHR ''0'')"
proof (induction n rule: digits10.induct)
  case (1 n)
  show ?case
  proof (cases "n < 10")
    case True
    then have "char_of (48 + n) = CHR ''0'' \<Longrightarrow> n = 0"
    proof -
      assume "char_of (48 + n) = CHR ''0''"
      then have "(of_char (char_of (48 + n)) :: nat) = of_char CHR ''0''" by simp
      with True show "n = 0" by simp
    qed
    with True show ?thesis
      using digit_char [of n] by (auto simp: digits10.simps [of n])
  next
    case False
    then have "0 < n div 10" by simp
    with "1.IH" False obtain c t where "digits10 (n div 10) = c # t" "is_digit c" "c \<noteq> CHR ''0''"
      by auto
    with False show ?thesis
      by (simp add: digits10.simps [of n])
  qed
qed

lemma char_of_48: "char_of (48 :: nat) = CHR ''0''"
  by code_simp

lemma digits10_0: "digits10 0 = ''0''"
  by (simp add: digits10.simps [of 0] char_of_48)

lemma digits10_digits: "c \<in> set (digits10 n) \<Longrightarrow> is_digit c"
proof (induction n arbitrary: c rule: digits10.induct)
  case (1 n)
  show ?case
  proof (cases "n < 10")
    case True
    with "1.prems" show ?thesis
      using digit_char [of n] by (simp add: digits10.simps [of n])
  next
    case False
    have "n mod 10 < 10" by simp
    from digit_char [OF this] "1.prems" "1.IH" False show ?thesis
      by (auto simp: digits10.simps [of n])
  qed
qed

text \<open>The number that a string of digits denotes.\<close>

lemma foldl_digits:
  "foldl (\<lambda>acc c. acc * 10 + (of_char c - 48)) a xs =
   a * 10 ^ length xs + foldl (\<lambda>acc c. acc * 10 + (of_char c - 48)) (0::nat) xs"
proof (induction xs arbitrary: a)
  case Nil
  then show ?case by simp
next
  case (Cons x xs)
  show ?case
    using Cons.IH [of "a * 10 + (of_char x - 48)"] Cons.IH [of "of_char x - 48"]
    by (simp add: algebra_simps)
qed

lemma digits_val_append:
  "digits_val (xs @ ys) = digits_val xs * 10 ^ length ys + digits_val ys"
  using foldl_digits [of "digits_val xs" ys] by (simp add: digits_val_def)

lemma digits_val_digits10: "digits_val (digits10 n) = n"
proof (induction n rule: digits10.induct)
  case (1 n)
  show ?case
  proof (cases "n < 10")
    case True
    then show ?thesis
      using digit_char [of n] by (simp add: digits10.simps [of n] digits_val_def)
  next
    case False
    have m: "n mod 10 < 10" by simp
    have "digits_val [char_of (48 + n mod 10)] = n mod 10"
      using digit_char [OF m] by (simp add: digits_val_def)
    with "1.IH" False show ?thesis
      by (simp add: digits10.simps [of n] digits_val_append)
  qed
qed

lemma digits_val_zeros: "digits_val (replicate j CHR ''0'') = 0"
  by (induction j) (simp_all add: digits_val_def)

lemma digits_val_leading_zeros: "digits_val (replicate j CHR ''0'' @ xs) = digits_val xs"
  by (simp add: digits_val_append digits_val_zeros)

text \<open>The three parts of a numeral, each read up to the text that follows it.\<close>

lemma span_digits_append:
  assumes "\<forall>c\<in>set ds. is_digit c" and "r = [] \<or> \<not> is_digit (hd r)"
  shows "span_digits (ds @ r) = (ds, r)"
proof -
  from assms(2) have "takeWhile is_digit r = []" "dropWhile is_digit r = r"
    by (cases r; simp)+
  with assms(1) show ?thesis
    by (simp add: span_digits_def takeWhile_append2 dropWhile_append2)
qed

lemma parse_int_digits_append:
  assumes "ds = c # t" and "\<forall>c\<in>set ds. is_digit c" and "c = CHR ''0'' \<longrightarrow> t = []"
    and "r = [] \<or> \<not> is_digit (hd r)"
  shows "parse_int_digits (ds @ r) = Some (ds, r)"
proof (cases "c = CHR ''0''")
  case True
  with assms show ?thesis by (simp add: parse_int_digits_def)
next
  case False
  from span_digits_append [OF assms(2,4)] have "span_digits (c # t @ r) = (c # t, r)"
    using assms(1) by simp
  with False assms(1,2) show ?thesis
    by (simp add: parse_int_digits_def)
qed

lemma parse_frac_none: "r = [] \<or> hd r \<noteq> CHR ''.'' \<Longrightarrow> parse_frac r = Some ([], r)"
  by (cases r) (simp_all add: parse_frac_def)

lemma parse_frac_digits:
  assumes "fs \<noteq> []" and "\<forall>c\<in>set fs. is_digit c" and "r = [] \<or> \<not> is_digit (hd r)"
  shows "parse_frac (CHR ''.'' # fs @ r) = Some (fs, r)"
  using span_digits_append [OF assms(2,3)] assms(1) by (simp add: parse_frac_def)

lemma parse_exp_none:
  "r = [] \<or> (hd r \<noteq> CHR ''e'' \<and> hd r \<noteq> CHR ''E'') \<Longrightarrow> parse_exp r = Some (0, r)"
  by (cases r) (simp_all add: parse_exp_def)

lemma parse_exp_digits:
  assumes "r = [] \<or> \<not> is_digit (hd r)"
  shows "parse_exp (CHR ''e'' # (if neg then CHR ''-'' else CHR ''+'') # digits10 n @ r) =
    Some (if neg then - int n else int n, r)"
proof -
  have "span_digits (digits10 n @ r) = (digits10 n, r)"
    using assms by (intro span_digits_append) (simp_all add: digits10_digits)
  moreover have "digits10 n \<noteq> []"
    using digits10_first [of n] by auto
  ultimately show ?thesis
    by (simp add: parse_exp_def digits_val_digits10)
qed

lemma parse_number_stages:
  assumes "parse_int_digits t = Some (ids, r1)" and "parse_frac r1 = Some (fs, r2)"
    and "parse_exp r2 = Some (x, r3)"
  shows "parse_number (if neg then CHR ''-'' # t else t) =
    Some (make_number neg (digits_val (ids @ fs)) (x - int (length fs)), r3)"
proof -
  from assms(1) obtain c u where t: "t = c # u" "is_digit c"
    by (cases t) (auto simp: parse_int_digits_def is_digit_def split: if_splits)
  then have "c \<noteq> CHR ''-''"
    by (auto simp: is_digit_def)
  with t assms show ?thesis
    by (simp add: parse_number_def)
qed

text \<open>
  Every numeral that \<open>JSON_stringify\<close> prints parses to the number it was printed
  for: first in the notation with an exponent, then an integer, then a number that is
  not an integer, with the point inside the digits or before them.
\<close>

lemma number_end_hd:
  assumes "number_end r"
  shows "r = [] \<or> \<not> is_digit (hd r)" and "r = [] \<or> hd r \<noteq> CHR ''.''"
    and "r = [] \<or> (hd r \<noteq> CHR ''e'' \<and> hd r \<noteq> CHR ''E'')"
  using assms by (cases r; simp add: number_end_def)+

lemma not_digit_chars [simp]: "\<not> is_digit CHR ''.''" "\<not> is_digit CHR ''e''"
  by (simp_all add: is_digit_def)

lemma parse_exponent_text:
  assumes ds: "ds = c # t" and dig: "\<forall>ch\<in>set ds. is_digit ch" and c: "c \<noteq> CHR ''0''"
    and r: "r = [] \<or> \<not> is_digit (hd r)"
  shows "parse_number (if neg then CHR ''-'' # exponent_text ds n @ r else exponent_text ds n @ r) =
    Some (make_number neg (digits_val ds) (n - int (length ds)), r)"
proof -
  let ?e = "CHR ''e'' # (if n < 1 then CHR ''-'' else CHR ''+'') # digits10 (nat \<bar>n - 1\<bar>) @ r"
  let ?f = "(if t = [] then [] else CHR ''.'' # t) @ ?e"
  have tx: "exponent_text ds n @ r = [c] @ ?f"
    using ds by (simp add: exponent_text_def)
  have "is_digit c"
    using ds dig by simp
  then have 1: "parse_int_digits ([c] @ ?f) = Some ([c], ?f)"
    using c by (intro parse_int_digits_append) auto
  have 2: "parse_frac ?f = Some (t, ?e)"
  proof (cases "t = []")
    case True
    then show ?thesis by (simp add: parse_frac_none)
  next
    case False
    from dig ds have "\<forall>ch\<in>set t. is_digit ch" by simp
    with False have "parse_frac (CHR ''.'' # t @ ?e) = Some (t, ?e)"
      by (intro parse_frac_digits) simp_all
    with False show ?thesis by simp
  qed
  have 3: "parse_exp ?e = Some (if n < 1 then - int (nat \<bar>n - 1\<bar>) else int (nat \<bar>n - 1\<bar>), r)"
    using r by (rule parse_exp_digits)
  have x: "(if n < 1 then - int (nat \<bar>n - 1\<bar>) else int (nat \<bar>n - 1\<bar>)) - int (length t) =
      n - int (length ds)"
    using ds by simp
  from parse_number_stages [OF 1 2 3, of neg] show ?thesis
    unfolding x tx using ds by simp
qed

lemma parse_plain_digits:
  assumes "number_end r"
  shows "parse_number (if neg then CHR ''-'' # digits10 n @ r else digits10 n @ r) =
    Some (JNum (if neg then - int n else int n), r)"
proof -
  obtain c t where ct: "digits10 n = c # t" "0 < n \<longrightarrow> c \<noteq> CHR ''0''"
    using digits10_first by blast
  have z: "c = CHR ''0'' \<longrightarrow> t = []"
    using ct digits10_0 by (cases "n = 0") auto
  have 1: "parse_int_digits (digits10 n @ r) = Some (digits10 n, r)"
    using ct(1) _ z number_end_hd(1) [OF assms]
    by (rule parse_int_digits_append) (simp add: digits10_digits)
  have 2: "parse_frac r = Some ([], r)"
    using number_end_hd(2) [OF assms] by (rule parse_frac_none)
  have 3: "parse_exp r = Some (0, r)"
    using number_end_hd(3) [OF assms] by (rule parse_exp_none)
  from parse_number_stages [OF 1 2 3, of neg] show ?thesis
    by (simp add: make_number_def digits_val_digits10)
qed

lemma significant_split:
  "ds = significant ds @ replicate (length ds - length (significant ds)) CHR ''0''"
proof -
  let ?P = "\<lambda>c. c = CHR ''0''"
  have t: "takeWhile ?P xs = replicate (length (takeWhile ?P xs)) CHR ''0''" for xs
    by (induction xs) simp_all
  have "rev ds = takeWhile ?P (rev ds) @ dropWhile ?P (rev ds)"
    by simp
  then have "ds = rev (dropWhile ?P (rev ds)) @ rev (takeWhile ?P (rev ds))"
    by (metis rev_append rev_rev_ident)
  moreover have "rev (takeWhile ?P (rev ds)) = replicate (length (takeWhile ?P (rev ds))) CHR ''0''"
    using t [of "rev ds"] by (metis rev_replicate)
  moreover have "length (takeWhile ?P (rev ds)) = length ds - length (significant ds)"
    using length_append [of "takeWhile ?P (rev ds)" "dropWhile ?P (rev ds)"]
    by (simp add: significant_def)
  ultimately show ?thesis
    by (simp add: significant_def)
qed

lemma significant_first:
  assumes "c \<noteq> CHR ''0''"
  shows "\<exists>u. significant (c # t) = c # u"
proof -
  let ?P = "\<lambda>c. c = CHR ''0''"
  have "\<exists>v. dropWhile ?P (xs @ [c]) = v @ [c]" for xs
    using assms by (induction xs) auto
  then obtain v where "dropWhile ?P (rev t @ [c]) = v @ [c]"
    by blast
  then show ?thesis
    by (simp add: significant_def)
qed

lemma significant_digits: "ch \<in> set (significant ds) \<Longrightarrow> ch \<in> set ds"
  using set_dropWhileD [of ch "\<lambda>c. c = CHR ''0''" "rev ds"] by (simp add: significant_def)

lemma parse_nat_text:
  assumes "number_end r"
  shows "parse_number (if neg then CHR ''-'' # nat_text n @ r else nat_text n @ r) =
    Some (JNum (if neg then - int n else int n), r)"
proof (cases "length (digits10 n) \<le> 21")
  case True
  then show ?thesis
    using parse_plain_digits [OF assms, of neg n] by (cases neg) (simp_all add: nat_text_def)
next
  case False
  let ?ds = "digits10 n"
  let ?sig = "significant ?ds"
  let ?z = "length ?ds - length ?sig"
  have "n \<noteq> 0"
  proof
    assume "n = 0"
    with False digits10_0 show False by simp
  qed
  then obtain c t where ct: "?ds = c # t" "c \<noteq> CHR ''0''"
    using digits10_first [of n] by auto
  then obtain u where u: "?sig = c # u"
    using significant_first [of c t] by auto
  have dig: "\<forall>ch\<in>set ?sig. is_digit ch"
    using significant_digits digits10_digits by blast
  have split: "?ds = ?sig @ replicate ?z CHR ''0''"
    by (rule significant_split)
  have "length ?sig \<le> length ?ds"
    using split by (metis le_add1 length_append)
  then have e: "int (length ?ds) - int (length ?sig) = int ?z"
    by simp
  have "digits_val ?ds = digits_val ?sig * 10 ^ ?z"
    using arg_cong [OF split, of digits_val] by (simp add: digits_val_append digits_val_zeros)
  then have n: "n = digits_val ?sig * 10 ^ ?z"
    by (simp add: digits_val_digits10)
  have m: "make_number neg (digits_val ?sig) (int ?z) = JNum (if neg then - int n else int n)"
    using n by (simp add: make_number_def)
  from parse_exponent_text [OF u dig ct(2) number_end_hd(1) [OF assms], of neg "int (length ?ds)"]
  show ?thesis
    using False unfolding e m by (cases neg) (simp_all add: nat_text_def Let_def)
qed

lemma strip_zeros_done: "0 < d \<Longrightarrow> m mod 10 \<noteq> 0 \<Longrightarrow> strip_zeros m d = (m, d)"
  by (cases d) simp_all

lemma make_number_dec:
  "0 < d \<Longrightarrow> m mod 10 \<noteq> 0 \<Longrightarrow>
   make_number neg m (- int d) = JDec (if neg then - int m else int m) d"
  by (simp add: make_number_def strip_zeros_done)

lemma parse_point_inside:
  assumes ds: "ds = c # t" and dig: "\<forall>ch\<in>set ds. is_digit ch" and c: "c \<noteq> CHR ''0''"
    and j: "0 < j" "j < length ds" and r: "number_end r"
  shows "parse_number
      (if neg then CHR ''-'' # take j ds @ CHR ''.'' # drop j ds @ r
       else take j ds @ CHR ''.'' # drop j ds @ r) =
    Some (make_number neg (digits_val ds) (int j - int (length ds)), r)"
proof -
  let ?f = "CHR ''.'' # drop j ds @ r"
  from j ds obtain t' where tk: "take j ds = c # t'"
    by (cases j) simp_all
  have dt: "\<forall>ch\<in>set (take j ds). is_digit ch"
    using dig by (meson in_set_takeD)
  have dd: "\<forall>ch\<in>set (drop j ds). is_digit ch"
    using dig by (meson in_set_dropD)
  have 1: "parse_int_digits (take j ds @ ?f) = Some (take j ds, ?f)"
    using tk dt c by (intro parse_int_digits_append) auto
  have 2: "parse_frac ?f = Some (drop j ds, r)"
    using j dd number_end_hd(1) [OF r] by (intro parse_frac_digits) simp_all
  have 3: "parse_exp r = Some (0, r)"
    using number_end_hd(3) [OF r] by (rule parse_exp_none)
  have x: "0 - int (length (drop j ds)) = int j - int (length ds)"
    using j by simp
  from parse_number_stages [OF 1 2 3, of neg] show ?thesis
    unfolding x by (cases neg) simp_all
qed

lemma parse_point_before:
  assumes dig: "\<forall>ch\<in>set ds. is_digit ch" and ne: "ds \<noteq> []" and r: "number_end r"
  shows "parse_number
      (if neg then CHR ''-'' # ''0.'' @ replicate z CHR ''0'' @ ds @ r
       else ''0.'' @ replicate z CHR ''0'' @ ds @ r) =
    Some (make_number neg (digits_val ds) (- int z - int (length ds)), r)"
proof -
  let ?fs = "replicate z CHR ''0'' @ ds"
  let ?f = "CHR ''.'' # ?fs @ r"
  have z: "is_digit CHR ''0''"
    by (simp add: is_digit_def)
  have 1: "parse_int_digits (''0'' @ ?f) = Some (''0'', ?f)"
    by (simp add: parse_int_digits_def)
  have 2: "parse_frac ?f = Some (?fs, r)"
    using dig ne z number_end_hd(1) [OF r] by (intro parse_frac_digits) auto
  have 3: "parse_exp r = Some (0, r)"
    using number_end_hd(3) [OF r] by (rule parse_exp_none)
  have v: "digits_val (''0'' @ ?fs) = digits_val ds"
    using digits_val_leading_zeros [of "Suc z" ds] by simp
  have x: "0 - int (length ?fs) = - int z - int (length ds)"
    by simp
  from parse_number_stages [OF 1 2 3, of neg] show ?thesis
    unfolding x v by (cases neg) simp_all
qed

lemma parse_fraction_text:
  assumes ds: "ds = c # t" and dig: "\<forall>ch\<in>set ds. is_digit ch" and c: "c \<noteq> CHR ''0''"
    and n: "n < int (length ds)" and r: "number_end r"
  shows "parse_number (if neg then CHR ''-'' # fraction_text ds n @ r else fraction_text ds n @ r) =
    Some (make_number neg (digits_val ds) (n - int (length ds)), r)"
proof -
  consider (inside) "0 < n" "n \<le> 21" | (before) "- 6 < n" "n \<le> 0" | (exponent) "21 < n \<or> n \<le> - 6"
    by linarith
  then show ?thesis
  proof cases
    case inside
    then have j: "0 < nat n" "nat n < length ds" "int (nat n) = n"
      using n by simp_all
    from parse_point_inside [OF ds dig c j(1,2) r, of neg] inside show ?thesis
      unfolding j(3) by (cases neg) (simp_all add: fraction_text_def)
  next
    case before
    then have z: "- int (nat (- n)) = n"
      by simp
    from ds have "ds \<noteq> []" by simp
    from parse_point_before [OF dig this r, of neg "nat (- n)"] before show ?thesis
      unfolding z by (cases neg) (simp_all add: fraction_text_def)
  next
    case exponent
    then have "fraction_text ds n = exponent_text ds n"
      by (auto simp: fraction_text_def)
    with parse_exponent_text [OF ds dig c number_end_hd(1) [OF r], of neg n] show ?thesis
      by (cases neg) simp_all
  qed
qed

lemma abs_mod_10: "(m::int) mod 10 \<noteq> 0 \<Longrightarrow> nat \<bar>m\<bar> mod 10 \<noteq> 0"
proof
  assume m: "m mod 10 \<noteq> 0" and "nat \<bar>m\<bar> mod 10 = 0"
  then obtain k where "nat \<bar>m\<bar> = 10 * k"
    by auto
  then have "\<bar>m\<bar> = 10 * int k"
    by linarith
  then have "m = 10 * int k \<or> m = 10 * (- int k)"
    by linarith
  with m show False
    by auto
qed

lemma parse_number_show_dec:
  assumes d: "0 < d" and m: "m mod 10 \<noteq> 0" and r: "number_end r"
  shows "parse_number (show_dec m d @ r) = Some (JDec m d, r)"
proof -
  let ?s = "nat \<bar>m\<bar>"
  let ?ds = "digits10 ?s"
  from m have s: "?s mod 10 \<noteq> 0" by (rule abs_mod_10)
  then have "0 < ?s" by (cases "?s = 0") simp_all
  then obtain c t where ct: "?ds = c # t" "c \<noteq> CHR ''0''"
    using digits10_first [of ?s] by auto
  have dig: "\<forall>ch\<in>set ?ds. is_digit ch"
    using digits10_digits by blast
  have n: "int (length ?ds) - int d < int (length ?ds)"
    using d by simp
  have e: "int (length ?ds) - int d - int (length ?ds) = - int d"
    by simp
  have v: "make_number (m < 0) ?s (- int d) = JDec m d"
    using make_number_dec [OF d s, of "m < 0"] by simp
  from parse_fraction_text [OF ct(1) dig ct(2) n r, of "m < 0"] show ?thesis
    unfolding e digits_val_digits10 v by (cases "m < 0") (simp_all add: show_dec_def Let_def)
qed

lemma parse_number_show_int:
  assumes "number_end r"
  shows "parse_number (show_int i @ r) = Some (JNum i, r)"
  using parse_nat_text [OF assms, of "i < 0" "nat \<bar>i\<bar>"]
  by (cases "i < 0") (simp_all add: show_int_def)

text \<open>A numeral starts with a digit or the minus sign.\<close>

lemma parse_number_first:
  "parse_number s = Some x \<Longrightarrow> \<exists>c t. s = c # t \<and> (is_digit c \<or> c = CHR ''-'')"
  by (cases s) (auto simp: parse_number_def parse_int_digits_def is_digit_def
      split: if_splits option.splits)

text \<open>Numerals with a fraction or an exponent, and what is no numeral.\<close>

lemma JSON_parse_numerals:
  "JSON_parse ''1e2'' = Some (JNum 100)"
  "JSON_parse ''2.0'' = Some (JNum 2)"
  "JSON_parse ''1.5'' = Some (JDec 15 1)"
  "JSON_parse ''-1.25E-2'' = Some (JDec (- 125) 4)"
  "JSON_parse ''0.5e+1'' = Some (JNum 5)"
  "JSON_parse ''-0'' = Some (JNum 0)"
  "JSON_parse ''01'' = None"
  "JSON_parse ''1.'' = None"
  "JSON_parse ''.5'' = None"
  "JSON_parse ''1e'' = None"
  "JSON_parse ''+1'' = None"
  by code_simp+

lemma JSON_stringify_numbers:
  "JSON_stringify (JNum 100) = ''100''"
  "JSON_stringify (JDec 15 1) = ''1.5''"
  "JSON_stringify (JDec (- 125) 4) = ''-0.0125''"
  "JSON_stringify (JDec 1 6) = ''0.000001''"
  "JSON_stringify (JDec 1 7) = ''1e-7''"
  "JSON_stringify (JDec 15 8) = ''1.5e-7''"
  by code_simp+

lemma pv_null: "parse_value (Suc n) (''null'' @ rest) = Some (JNull, rest)"
  by (simp add: expect_def is_ws_def)

lemma pv_true: "parse_value (Suc n) (''true'' @ rest) = Some (JBool True, rest)"
  by (simp add: expect_def is_ws_def)

lemma pv_false: "parse_value (Suc n) (''false'' @ rest) = Some (JBool False, rest)"
  by (simp add: expect_def is_ws_def)

lemma pv_str: "parse_value (Suc n) (quote s @ rest) = Some (JStr s, rest)"
  by (simp add: quote_def is_ws_def parse_string_chars_quote del: parse_string_chars.simps)

lemma pv_number_start:
  assumes "is_digit c \<or> c = CHR ''-''"
  shows "parse_value (Suc n) (c # r) = parse_number (c # r)"
proof -
  from assms have "\<not> is_ws c" "c \<noteq> CHR ''n''" "c \<noteq> CHR ''t''" "c \<noteq> CHR ''f''" "c \<noteq> CHR 0x22"
    "c \<noteq> CHR ''[''" "c \<noteq> CHR ''{''"
    by (auto simp: is_digit_def is_ws_def)
  then show ?thesis by simp
qed

lemma show_int_first: "\<exists>c t. show_int i = c # t \<and> (is_digit c \<or> c = CHR ''-'')"
  using parse_number_show_int [of "[]" i] parse_number_first [of "show_int i"]
  by (simp add: number_end_def)

lemma show_dec_first:
  "0 < d \<Longrightarrow> m mod 10 \<noteq> 0 \<Longrightarrow>
   \<exists>c t. show_dec m d = c # t \<and> (is_digit c \<or> c = CHR ''-'')"
  using parse_number_show_dec [of d m "[]"] parse_number_first [of "show_dec m d"]
  by (simp add: number_end_def)

lemma pv_num:
  assumes "number_end rest"
  shows "parse_value (Suc n) (show_int i @ rest) = Some (JNum i, rest)"
proof -
  obtain c t where ct: "show_int i = c # t" "is_digit c \<or> c = CHR ''-''"
    using show_int_first by blast
  have "parse_value (Suc n) (c # t @ rest) = parse_number (c # t @ rest)"
    using ct(2) by (rule pv_number_start)
  also have "\<dots> = Some (JNum i, rest)"
    using parse_number_show_int [OF assms, of i] ct(1) by simp
  finally show ?thesis using ct(1) by simp
qed

lemma pv_dec:
  assumes "0 < d" and "m mod 10 \<noteq> 0" and "number_end rest"
  shows "parse_value (Suc n) (show_dec m d @ rest) = Some (JDec m d, rest)"
proof -
  obtain c t where ct: "show_dec m d = c # t" "is_digit c \<or> c = CHR ''-''"
    using show_dec_first [OF assms(1,2)] by blast
  have "parse_value (Suc n) (c # t @ rest) = parse_number (c # t @ rest)"
    using ct(2) by (rule pv_number_start)
  also have "\<dots> = Some (JDec m d, rest)"
    using parse_number_show_dec [OF assms] ct(1) by simp
  finally show ?thesis using ct(1) by simp
qed

text \<open>The first character of a serialized value.\<close>

lemma stringify_first:
  assumes "wf_json v"
  shows "\<exists>c t. JSON_stringify v = c # t \<and> \<not> is_ws c \<and> c \<noteq> CHR '']'' \<and> c \<noteq> CHR ''}''"
proof (cases v)
  case (JNum i)
  obtain c t where "show_int i = c # t" "is_digit c \<or> c = CHR ''-''"
    using show_int_first by blast
  with JNum show ?thesis
    by (auto simp: is_digit_def is_ws_def)
next
  case (JDec m d)
  with assms obtain c t where "show_dec m d = c # t" "is_digit c \<or> c = CHR ''-''"
    using show_dec_first [of d m] by auto
  with JDec show ?thesis
    by (auto simp: is_digit_def is_ws_def)
qed (auto simp: is_ws_def quote_def)

lemma number_end_delims [simp]:
  "number_end []" "number_end (CHR '','' # t)" "number_end (CHR '']'' # t)"
  "number_end (CHR ''}'' # t)"
  by (simp_all add: number_end_def is_digit_def)

lemma skip_ws_delims [simp]:
  "skip_ws (CHR '','' # t) = CHR '','' # t" "skip_ws (CHR '']'' # t) = CHR '']'' # t"
  "skip_ws (CHR ''}'' # t) = CHR ''}'' # t" "skip_ws (CHR '':'' # t) = CHR '':'' # t"
  "skip_ws (CHR 0x22 # t) = CHR 0x22 # t"
  by (simp_all add: is_ws_def)

lemma parse_elems_commas:
  assumes "\<And>v n rest. v \<in> set vs \<Longrightarrow> length (JSON_stringify v) \<le> n \<Longrightarrow> number_end rest \<Longrightarrow>
      parse_value n (JSON_stringify v @ rest) = Some (v, rest)"
    and "vs \<noteq> []"
    and "length (commas (map JSON_stringify vs)) < m"
  shows "parse_elems m (commas (map JSON_stringify vs) @ CHR '']'' # rest) = Some (vs, rest)"
  using assms
proof (induction vs arbitrary: m)
  case Nil
  then show ?case by simp
next
  case (Cons v ws)
  from Cons.prems(3) obtain n where m: "m = Suc n" by (cases m) auto
  show ?case
  proof (cases ws)
    case Nil
    have "parse_value n (JSON_stringify v @ CHR '']'' # rest) = Some (v, CHR '']'' # rest)"
      using Cons.prems(3) Nil m by (intro Cons.prems(1)) simp_all
    with Nil m show ?thesis
      by (simp del: parse_value.simps skip_ws.simps)
  next
    case (Cons w ws')
    let ?tail = "commas (map JSON_stringify ws) @ CHR '']'' # rest"
    have v: "parse_value n (JSON_stringify v @ CHR '','' # ?tail) = Some (v, CHR '','' # ?tail)"
      using Cons.prems(3) Cons m by (intro Cons.prems(1)) simp_all
    have "parse_elems n ?tail = Some (ws, rest)"
      using Cons.prems(1,3) Cons m by (intro Cons.IH) simp_all
    with v Cons m show ?thesis
      by (simp del: parse_value.simps skip_ws.simps)
  qed
qed

lemma update_fresh: "k \<notin> fst ` set al \<Longrightarrow> AList.update k v al = al @ [(k, v)]"
  by (induction al) auto

lemma foldl_update_distinct:
  "distinct (map fst (acc @ kvs)) \<Longrightarrow>
   foldl (\<lambda>acc kv. AList.update (fst kv) (snd kv) acc) acc kvs = acc @ kvs"
proof (induction kvs arbitrary: acc)
  case Nil
  then show ?case by simp
next
  case (Cons kv kvs)
  from Cons.prems have "fst kv \<notin> fst ` set acc"
    by auto
  then have "AList.update (fst kv) (snd kv) acc = acc @ [kv]"
    by (simp add: update_fresh)
  moreover from Cons.prems have "distinct (map fst ((acc @ [kv]) @ kvs))"
    by simp
  ultimately show ?case
    using Cons.IH [of "acc @ [kv]"] by simp
qed

lemma dedupe_distinct: "distinct (map fst kvs) \<Longrightarrow> dedupe kvs = kvs"
  using foldl_update_distinct [of "[]" kvs] by (simp add: dedupe_def)

lemma member_text_cons:
  "member_text (k, s) @ t = CHR 0x22 # concat (map escape_char k) @ CHR 0x22 # CHR '':'' # s @ t"
  by (simp add: member_text_def quote_def)

lemma parse_members_commas:
  assumes "\<And>k v n rest. (k, v) \<in> set kvs \<Longrightarrow> length (JSON_stringify v) \<le> n \<Longrightarrow>
      number_end rest \<Longrightarrow> parse_value n (JSON_stringify v @ rest) = Some (v, rest)"
    and "kvs \<noteq> []"
    and "length (commas (map member_text (map (map_prod id JSON_stringify) kvs))) < m"
  shows "parse_members m
      (commas (map member_text (map (map_prod id JSON_stringify) kvs)) @ CHR ''}'' # rest) =
    Some (kvs, rest)"
  using assms
proof (induction kvs arbitrary: m)
  case Nil
  then show ?case by simp
next
  case (Cons kv ws)
  obtain k v where kv: "kv = (k, v)" by (cases kv)
  from Cons.prems(3) obtain n where m: "m = Suc n" by (cases m) auto
  have len: "length (JSON_stringify v) \<le> length (member_text (k, JSON_stringify v))"
    by (simp add: member_text_def)
  show ?case
  proof (cases ws)
    case Nil
    have "parse_value n (JSON_stringify v @ CHR ''}'' # rest) = Some (v, CHR ''}'' # rest)"
      using Cons.prems(3) Nil m kv len by (intro Cons.prems(1) [of k]) simp_all
    with Nil m kv show ?thesis
      by (simp add: member_text_cons parse_string_chars_quote id_def
          del: parse_value.simps skip_ws.simps parse_string_chars.simps)
  next
    case ws: (Cons w ws')
    let ?tail = "commas (map member_text (map (map_prod id JSON_stringify) ws)) @ CHR ''}'' # rest"
    have v: "parse_value n (JSON_stringify v @ CHR '','' # ?tail) = Some (v, CHR '','' # ?tail)"
      using Cons.prems(3) ws m kv len by (intro Cons.prems(1) [of k]) simp_all
    have "parse_members n ?tail = Some (ws, rest)"
    proof (rule Cons.IH)
      fix k' v' j r
      assume "(k', v') \<in> set ws" "length (JSON_stringify v') \<le> j" "number_end r"
      then show "parse_value j (JSON_stringify v' @ r) = Some (v', r)"
        by (intro Cons.prems(1) [of k']) simp_all
    next
      show "ws \<noteq> []" using ws by simp
      show "length (commas (map member_text (map (map_prod id JSON_stringify) ws))) < n"
        using Cons.prems(3) ws m by (simp add: id_def)
    qed
    with v ws m kv show ?thesis
      by (simp add: member_text_cons parse_string_chars_quote id_def
          del: parse_value.simps skip_ws.simps parse_string_chars.simps)
  qed
qed

lemma wf_json_JArr: "wf_json (JArr vs) \<longleftrightarrow> (\<forall>v\<in>set vs. wf_json v)"
  by (auto simp: list_all_iff)

lemma wf_json_JObj:
  "wf_json (JObj kvs) \<longleftrightarrow> distinct (map fst kvs) \<and> (\<forall>kv\<in>set kvs. wf_json (snd kv))"
  by (auto simp: list_all_iff)

lemma parse_value_stringify:
  "wf_json v \<Longrightarrow> length (JSON_stringify v) \<le> n \<Longrightarrow> number_end rest \<Longrightarrow>
   parse_value n (JSON_stringify v @ rest) = Some (v, rest)"
proof (induction v arbitrary: n rest)
  case JNull
  then obtain m where "n = Suc m" by (cases n) auto
  then show ?case using pv_null by simp
next
  case (JBool b)
  then obtain m where "n = Suc m" by (cases n) (auto split: if_splits)
  then show ?case using pv_true pv_false by simp
next
  case (JNum i)
  obtain c t where "show_int i = c # t" using show_int_first by blast
  with JNum.prems obtain m where "n = Suc m" by (cases n) auto
  with JNum.prems show ?case using pv_num by simp
next
  case (JDec m d)
  then have wf: "0 < d" "m mod 10 \<noteq> 0" by simp_all
  obtain c t where "show_dec m d = c # t" using show_dec_first [OF wf] by blast
  with JDec.prems obtain k where "n = Suc k" by (cases n) auto
  with JDec.prems wf show ?case using pv_dec by simp
next
  case (JStr s)
  then obtain m where "n = Suc m" by (cases n) (auto simp: quote_def)
  then show ?case using pv_str by simp
next
  case (JArr vs)
  from JArr.prems obtain m where m: "n = Suc m" by (cases n) auto
  show ?case
  proof (cases "vs = []")
    case True
    with m show ?thesis by (simp add: is_ws_def)
  next
    case False
    then obtain v ws where vs: "vs = v # ws" by (cases vs) auto
    from JArr.prems(1) vs have "wf_json v"
      by (simp add: list_all_iff)
    then obtain c t where ct: "JSON_stringify v = c # t" "\<not> is_ws c" "c \<noteq> CHR '']''"
      using stringify_first by blast
    have first: "\<exists>u. commas (map JSON_stringify vs) @ CHR '']'' # rest = c # u"
      using vs ct(1) by (cases ws) simp_all
    have elems: "parse_elems m (commas (map JSON_stringify vs) @ CHR '']'' # rest) = Some (vs, rest)"
    proof (rule parse_elems_commas)
      fix x k r
      assume a: "x \<in> set vs" "length (JSON_stringify x) \<le> k" "number_end r"
      with JArr.prems(1) have "wf_json x"
        by (simp add: list_all_iff)
      with a show "parse_value k (JSON_stringify x @ r) = Some (x, r)"
        using JArr.IH [of x k r] by simp
    next
      show "vs \<noteq> []" by fact
      show "length (commas (map JSON_stringify vs)) < m"
        using JArr.prems(2) m by simp
    qed
    from first obtain u where u: "commas (map JSON_stringify vs) @ CHR '']'' # rest = c # u"
      by blast
    have "parse_value (Suc m) (CHR ''['' # c # u) = Some (JArr vs, rest)"
      using elems ct(2,3) unfolding u
      by (simp add: is_ws_def del: parse_elems.simps)
    with u m show ?thesis by simp
  qed
next
  case (JObj kvs)
  from JObj.prems obtain m where m: "n = Suc m" by (cases n) auto
  from JObj.prems(1) have d: "distinct (map fst kvs)"
    by simp
  show ?case
  proof (cases "kvs = []")
    case True
    with m show ?thesis by (simp add: is_ws_def)
  next
    case False
    let ?body = "commas (map member_text (map (map_prod id JSON_stringify) kvs))"
    from False obtain kv ws where kvs: "kvs = kv # ws" by (cases kvs) auto
    have first: "\<exists>u. ?body @ CHR ''}'' # rest = CHR 0x22 # u"
      using kvs by (cases ws) (simp_all add: member_text_def quote_def)
    have members: "parse_members m (?body @ CHR ''}'' # rest) = Some (kvs, rest)"
    proof (rule parse_members_commas)
      fix k x j r
      assume a: "(k, x) \<in> set kvs" "length (JSON_stringify x) \<le> j" "number_end r"
      with JObj.prems(1) have "wf_json x"
        by (auto simp: list_all_iff)
      with a show "parse_value j (JSON_stringify x @ r) = Some (x, r)"
        by (intro JObj.IH [of "(k, x)"]) simp_all
    next
      show "kvs \<noteq> []" by fact
      show "length ?body < m"
        using JObj.prems(2) m by simp
    qed
    from first obtain u where u: "?body @ CHR ''}'' # rest = CHR 0x22 # u"
      by blast
    have "parse_value (Suc m) (CHR ''{'' # CHR 0x22 # u) = Some (JObj kvs, rest)"
      using members d unfolding u
      by (simp add: is_ws_def dedupe_distinct del: parse_members.simps)
    with u m show ?thesis by simp
  qed
qed

lemma JSON_parse_stringify: "wf_json v \<Longrightarrow> JSON_parse (JSON_stringify v) = Some v"
  using parse_value_stringify [of v "length (JSON_stringify v)" "[]"]
  by (simp add: JSON_parse_def)

lemma deep_copy_wf: "wf_json v \<Longrightarrow> deep_copy v = Inr v"
  by (simp add: deep_copy_def JSON_parse_or_raise_def JSON_parse_stringify)

subsection \<open>The counter of the parser\<close>

lemma length_skip_ws: "length (skip_ws s) \<le> length s"
  by (induction s) auto

lemma skip_ws_Cons_length: "skip_ws s = c # t \<Longrightarrow> length t < length s"
  using length_skip_ws [of s] by simp

lemma parse_string_chars_length:
  "parse_string_chars s = Some (x, r) \<Longrightarrow> length r < length s"
proof (induction s arbitrary: x r rule: parse_string_chars.induct)
  case 1
  then show ?case by simp
next
  case (2 c cs)
  show ?case
    using "2.prems" "2.IH"
    apply (simp split: if_splits list.splits option.splits)
    apply (fastforce split: if_splits list.splits option.splits)+
    done
qed

lemma span_digits_length: "span_digits s = (a, r) \<Longrightarrow> length r \<le> length s"
  by (auto simp: span_digits_def length_dropWhile_le)

lemma parse_int_digits_length: "parse_int_digits s = Some (a, r) \<Longrightarrow> length r < length s"
proof (cases s)
  case Nil
  assume "parse_int_digits s = Some (a, r)"
  with Nil show ?thesis by (simp add: parse_int_digits_def)
next
  case (Cons c cs)
  assume p: "parse_int_digits s = Some (a, r)"
  show ?thesis
  proof (cases "c = CHR ''0''")
    case True
    with p Cons show ?thesis by (simp add: parse_int_digits_def)
  next
    case False
    with p Cons have "is_digit c" "r = dropWhile is_digit cs"
      by (auto simp: parse_int_digits_def span_digits_def split: if_splits)
    with Cons show ?thesis
      using length_dropWhile_le [of is_digit cs] by simp
  qed
qed

lemma parse_frac_length: "parse_frac s = Some (a, r) \<Longrightarrow> length r \<le> length s"
  by (cases s)
    (auto simp: parse_frac_def split: if_splits prod.splits dest!: span_digits_length)

lemma parse_exp_length: "parse_exp s = Some (x, r) \<Longrightarrow> length r \<le> length s"
  by (cases s)
    (auto simp: parse_exp_def split: if_splits prod.splits list.splits dest!: span_digits_length)

lemma parse_number_length: "parse_number s = Some (v, r) \<Longrightarrow> length r < length s"
proof (cases s)
  case Nil
  assume "parse_number s = Some (v, r)"
  with Nil show ?thesis by (simp add: parse_number_def)
next
  case (Cons c cs)
  assume "parse_number s = Some (v, r)"
  with Cons obtain ids r1 fs r2 x where
    1: "parse_int_digits (if c = CHR ''-'' then cs else c # cs) = Some (ids, r1)"
    and 2: "parse_frac r1 = Some (fs, r2)" and 3: "parse_exp r2 = Some (x, r)"
    by (auto simp: parse_number_def split: option.splits)
  from parse_int_digits_length [OF 1] have "length r1 < length s"
    using Cons by (simp split: if_splits)
  with parse_frac_length [OF 2] parse_exp_length [OF 3] show ?thesis
    by linarith
qed

lemma expect_length: "expect w s v = Some (v', r) \<Longrightarrow> length r \<le> length s"
  by (auto simp: expect_def split: if_splits)

lemma fuel_value_step:
  assumes IHe: "\<And>s vs r. parse_elems m s = Some (vs, r) \<Longrightarrow>
      length r < length s \<and> (\<forall>n. length s - length r \<le> n \<longrightarrow> parse_elems n s = Some (vs, r))"
    and IHm: "\<And>s vs r. parse_members m s = Some (vs, r) \<Longrightarrow>
      length r < length s \<and> (\<forall>n. length s - length r \<le> n \<longrightarrow> parse_members n s = Some (vs, r))"
    and p: "parse_value (Suc m) s = Some (v, r)"
  shows "length r < length s \<and>
      (\<forall>n. length s - length r \<le> n \<longrightarrow> parse_value n s = Some (v, r))"
proof -
  from p obtain c t where ct: "skip_ws s = c # t"
    by (cases "skip_ws s") simp_all
  then have lt: "length t < length s"
    by (rule skip_ws_Cons_length)
  consider (arr) vs d u where "c = CHR ''[''" "v = JArr vs" "parse_elems m t = Some (vs, r)"
      "skip_ws t = d # u" "d \<noteq> CHR '']''"
    | (obj) kvs d u where "c = CHR ''{''" "v = JObj (dedupe kvs)"
      "parse_members m t = Some (kvs, r)" "skip_ws t = d # u" "d \<noteq> CHR ''}''"
    | (leaf) "length r \<le> length t" "\<And>n. parse_value (Suc n) s = Some (v, r)"
  proof -
    show ?thesis
    proof (cases "c = CHR ''[''")
      case True
      show ?thesis
      proof (cases "skip_ws t")
        case Nil
        with p ct True show ?thesis by simp
      next
        case (Cons d u)
        show ?thesis
        proof (cases "d = CHR '']''")
          case T: True
          from Cons have "length u < length t" by (rule skip_ws_Cons_length)
          with p ct True Cons T show ?thesis
            by (intro leaf) (auto simp del: parse_elems.simps)
        next
          case False
          from p ct True Cons False obtain vs where
            "v = JArr vs" "parse_elems m t = Some (vs, r)"
            by (auto simp del: parse_elems.simps)
          with True show ?thesis using Cons False by (rule arr)
        qed
      qed
    next
      case nb: False
      show ?thesis
      proof (cases "c = CHR ''{''")
        case True
        show ?thesis
        proof (cases "skip_ws t")
          case Nil
          with p ct True show ?thesis by simp
        next
          case (Cons d u)
          show ?thesis
          proof (cases "d = CHR ''}''")
            case T: True
            from Cons have "length u < length t" by (rule skip_ws_Cons_length)
            with p ct True Cons T show ?thesis
              by (intro leaf) (auto simp del: parse_members.simps)
          next
            case False
            from p ct True Cons False obtain kvs where
              "v = JObj (dedupe kvs)" "parse_members m t = Some (kvs, r)"
              by (auto simp del: parse_members.simps)
            with True show ?thesis using Cons False by (rule obj)
          qed
        qed
      next
        case False
        from p ct nb False have "length r \<le> length t"
          by (auto split: if_splits simp del: parse_string_chars.simps
              dest: expect_length parse_string_chars_length parse_number_length)
        moreover from p ct nb False have "parse_value (Suc n) s = Some (v, r)" for n
          by (simp split: if_splits del: parse_string_chars.simps)
        ultimately show ?thesis by (rule leaf)
      qed
    qed
  qed
  then show ?thesis
  proof cases
    case arr
    from IHe [OF arr(3)] have l: "length r < length t"
      and f: "\<And>n. length t - length r \<le> n \<Longrightarrow> parse_elems n t = Some (vs, r)"
      by simp_all
    note du = arr(4,5)
    have "parse_value n s = Some (v, r)" if n: "length s - length r \<le> n" for n
    proof -
      from n l lt obtain n' where n': "n = Suc n'" "length t - length r \<le> n'"
        by (cases n) auto
      with f [OF n'(2)] ct arr du show ?thesis
        by (simp del: parse_elems.simps)
    qed
    with l lt show ?thesis by simp
  next
    case obj
    from IHm [OF obj(3)] have l: "length r < length t"
      and f: "\<And>n. length t - length r \<le> n \<Longrightarrow> parse_members n t = Some (kvs, r)"
      by simp_all
    note du = obj(4,5)
    have "parse_value n s = Some (v, r)" if n: "length s - length r \<le> n" for n
    proof -
      from n l lt obtain n' where n': "n = Suc n'" "length t - length r \<le> n'"
        by (cases n) auto
      with f [OF n'(2)] ct obj du show ?thesis
        by (simp del: parse_members.simps)
    qed
    with l lt show ?thesis by simp
  next
    case leaf
    have "parse_value n s = Some (v, r)" if n: "length s - length r \<le> n" for n
    proof -
      from n leaf(1) lt obtain n' where "n = Suc n'"
        by (cases n) auto
      with leaf(2) show ?thesis by simp
    qed
    with leaf(1) lt show ?thesis by simp
  qed
qed

lemma fuel_elems_step:
  assumes IHv: "\<And>s v r. parse_value m s = Some (v, r) \<Longrightarrow>
      length r < length s \<and> (\<forall>n. length s - length r \<le> n \<longrightarrow> parse_value n s = Some (v, r))"
    and IHe: "\<And>s vs r. parse_elems m s = Some (vs, r) \<Longrightarrow>
      length r < length s \<and> (\<forall>n. length s - length r \<le> n \<longrightarrow> parse_elems n s = Some (vs, r))"
    and p: "parse_elems (Suc m) s = Some (vs, r)"
  shows "length r < length s \<and>
      (\<forall>n. length s - length r \<le> n \<longrightarrow> parse_elems n s = Some (vs, r))"
proof -
    from p obtain v1 r1 where v1: "parse_value m s = Some (v1, r1)"
      by (auto split: option.splits)
    from IHv [OF v1] have l1: "length r1 < length s"
      and f1: "\<And>n. length s - length r1 \<le> n \<Longrightarrow> parse_value n s = Some (v1, r1)"
      by simp_all
    from p v1 obtain d t where dt: "skip_ws r1 = d # t"
      by (cases "skip_ws r1") simp_all
    then have lt: "length t < length r1"
      by (rule skip_ws_Cons_length)
    show ?thesis
    proof (cases "d = CHR '',''")
      case True
      with p v1 dt obtain ws where ws: "parse_elems m t = Some (ws, r)" "vs = v1 # ws"
        by auto
      from IHe [OF ws(1)] have l2: "length r < length t"
        and f2: "\<And>n. length t - length r \<le> n \<Longrightarrow> parse_elems n t = Some (ws, r)"
        by simp_all
      have "parse_elems n s = Some (vs, r)" if n: "length s - length r \<le> n" for n
      proof -
        from n l1 l2 lt obtain n' where n': "n = Suc n'" "length s - length r1 \<le> n'"
          "length t - length r \<le> n'"
          by (cases n) auto
        from f1 [OF n'(2)] f2 [OF n'(3)] dt True ws(2) n'(1) show ?thesis
          by simp
      qed
      with l1 l2 lt show ?thesis by simp
    next
      case False
      with p v1 dt have r: "d = CHR '']''" "r = t" "vs = [v1]"
        by (auto split: if_splits)
      have "parse_elems n s = Some (vs, r)" if n: "length s - length r \<le> n" for n
      proof -
        from n l1 lt r(2) obtain n' where n': "n = Suc n'" "length s - length r1 \<le> n'"
          by (cases n) auto
        from f1 [OF n'(2)] dt r n'(1) show ?thesis
          by simp
      qed
      with l1 lt r(2) show ?thesis by simp
    qed
  qed

lemma fuel_members_step:
  assumes IHv: "\<And>s v r. parse_value m s = Some (v, r) \<Longrightarrow>
      length r < length s \<and> (\<forall>n. length s - length r \<le> n \<longrightarrow> parse_value n s = Some (v, r))"
    and IHm: "\<And>s vs r. parse_members m s = Some (vs, r) \<Longrightarrow>
      length r < length s \<and> (\<forall>n. length s - length r \<le> n \<longrightarrow> parse_members n s = Some (vs, r))"
    and p: "parse_members (Suc m) s = Some (kvs, r)"
  shows "length r < length s \<and>
      (\<forall>n. length s - length r \<le> n \<longrightarrow> parse_members n s = Some (kvs, r))"
proof -
    from p obtain q r0 where q: "skip_ws s = q # r0"
      by (cases "skip_ws s") simp_all
    with p have q': "q = CHR 0x22"
      by (auto split: if_splits simp del: parse_string_chars.simps)
    from p q q' obtain k r1 where k: "parse_string_chars r0 = Some (k, r1)"
      by (cases "parse_string_chars r0") (auto simp del: parse_string_chars.simps)
    from p q q' k obtain col r2 where c: "skip_ws r1 = col # r2"
      by (cases "skip_ws r1") (auto simp del: parse_string_chars.simps)
    with p q q' k have c': "col = CHR '':''"
      by (auto split: if_splits simp del: parse_string_chars.simps)
    from p q q' k c c' obtain v1 r3 where v1: "parse_value m r2 = Some (v1, r3)"
      by (cases "parse_value m r2") (auto simp del: parse_string_chars.simps)
    from p q q' k c c' v1 obtain d t where dt: "skip_ws r3 = d # t"
      by (cases "skip_ws r3") (auto simp del: parse_string_chars.simps)
    note facts = q q' k c c' v1 dt
    have l0: "length r0 < length s" "length r1 < length r0" "length r2 < length r1"
      "length t < length r3"
      using q k c dt
      by (auto dest: skip_ws_Cons_length parse_string_chars_length)
    from IHv [OF v1] have l1: "length r3 < length r2"
      and f1: "\<And>n. length r2 - length r3 \<le> n \<Longrightarrow> parse_value n r2 = Some (v1, r3)"
      by simp_all
    show ?thesis
    proof (cases "d = CHR '',''")
      case True
      with p facts obtain ws where ws: "parse_members m t = Some (ws, r)" "kvs = (k, v1) # ws"
        by (auto simp del: parse_string_chars.simps)
      from IHm [OF ws(1)] have l2: "length r < length t"
        and f2: "\<And>n. length t - length r \<le> n \<Longrightarrow> parse_members n t = Some (ws, r)"
        by simp_all
      have *: "parse_members n s = Some (kvs, r)" if n: "length s - length r \<le> n" for n
      proof -
        from n l0 l1 l2 obtain n' where n': "n = Suc n'" "length r2 - length r3 \<le> n'"
          "length t - length r \<le> n'"
          by (cases n) auto
        from f1 [OF n'(2)] f2 [OF n'(3)] facts True ws(2) n'(1) show ?thesis
          by (simp del: parse_string_chars.simps)
      qed
      from l0 l1 l2 have "length r < length s" by linarith
      with * show ?thesis by blast
    next
      case False
      with p facts have r: "d = CHR ''}''" "r = t" "kvs = [(k, v1)]"
        by (auto split: if_splits simp del: parse_string_chars.simps)
      have *: "parse_members n s = Some (kvs, r)" if n: "length s - length r \<le> n" for n
      proof -
        from n l0 l1 r(2) obtain n' where n': "n = Suc n'" "length r2 - length r3 \<le> n'"
          by (cases n) auto
        from f1 [OF n'(2)] facts r n'(1) show ?thesis
          by (simp del: parse_string_chars.simps)
      qed
      from l0 l1 have "length t < length s" by linarith
      with r(2) have "length r < length s" by (simp only:)
      with * show ?thesis by blast
    qed
  qed

text \<open>
  A value that parses with some counter parses with every counter that is at least the
  number of characters read.
\<close>

lemma parse_fuel:
  "(\<forall>s v r. parse_value m s = Some (v, r) \<longrightarrow>
      length r < length s \<and> (\<forall>n. length s - length r \<le> n \<longrightarrow> parse_value n s = Some (v, r))) \<and>
   (\<forall>s vs r. parse_elems m s = Some (vs, r) \<longrightarrow>
      length r < length s \<and> (\<forall>n. length s - length r \<le> n \<longrightarrow> parse_elems n s = Some (vs, r))) \<and>
   (\<forall>s kvs r. parse_members m s = Some (kvs, r) \<longrightarrow>
      length r < length s \<and>
      (\<forall>n. length s - length r \<le> n \<longrightarrow> parse_members n s = Some (kvs, r)))"
proof (induction m)
  case 0
  then show ?case by simp
next
  case (Suc m)
  note IHv = Suc.IH [THEN conjunct1, rule_format]
  note IHe = Suc.IH [THEN conjunct2, THEN conjunct1, rule_format]
  note IHm = Suc.IH [THEN conjunct2, THEN conjunct2, rule_format]
  have 1: "\<forall>s v r. parse_value (Suc m) s = Some (v, r) \<longrightarrow>
      length r < length s \<and>
      (\<forall>n. length s - length r \<le> n \<longrightarrow> parse_value n s = Some (v, r))"
  proof (intro allI impI)
    fix s v r
    assume "parse_value (Suc m) s = Some (v, r)"
    with IHe IHm show "length r < length s \<and>
        (\<forall>n. length s - length r \<le> n \<longrightarrow> parse_value n s = Some (v, r))"
      by (rule fuel_value_step)
  qed
  have 2: "\<forall>s vs r. parse_elems (Suc m) s = Some (vs, r) \<longrightarrow>
      length r < length s \<and>
      (\<forall>n. length s - length r \<le> n \<longrightarrow> parse_elems n s = Some (vs, r))"
  proof (intro allI impI)
    fix s vs r
    assume "parse_elems (Suc m) s = Some (vs, r)"
    with IHv IHe show "length r < length s \<and>
        (\<forall>n. length s - length r \<le> n \<longrightarrow> parse_elems n s = Some (vs, r))"
      by (rule fuel_elems_step)
  qed
  have 3: "\<forall>s kvs r. parse_members (Suc m) s = Some (kvs, r) \<longrightarrow>
      length r < length s \<and>
      (\<forall>n. length s - length r \<le> n \<longrightarrow> parse_members n s = Some (kvs, r))"
  proof (intro allI impI)
    fix s kvs r
    assume "parse_members (Suc m) s = Some (kvs, r)"
    with IHv IHm show "length r < length s \<and>
        (\<forall>n. length s - length r \<le> n \<longrightarrow> parse_members n s = Some (kvs, r))"
      by (rule fuel_members_step)
  qed
  show ?case
    by (rule conjI [OF 1 conjI [OF 2 3]])
qed

text \<open>
  If a text parses with some counter, it parses with the counter \<open>JSON_parse\<close> starts
  from: the counter never makes \<open>JSON_parse\<close> fail.
\<close>

lemma JSON_parse_fuel:
  assumes "parse_value m s = Some (v, r)" and "skip_ws r = []"
  shows "JSON_parse s = Some v"
proof -
  from parse_fuel [of m, THEN conjunct1, rule_format, OF assms(1)]
  have "length s - length r \<le> length s \<longrightarrow> parse_value (length s) s = Some (v, r)"
    by blast
  then have "parse_value (length s) s = Some (v, r)"
    by simp
  with assms(2) show ?thesis
    by (simp add: JSON_parse_def)
qed

subsection \<open>Decoding an encoded byte string\<close>

lemma b64_val_char: "n < 64 \<Longrightarrow> b64_val (b64_char n) = Some n"
  by (auto simp: b64_val_def b64_char_def Let_def)

lemma b64_char_not_pad: "n < 64 \<Longrightarrow> b64_char n \<noteq> CHR ''=''"
proof
  assume n: "n < 64" and "b64_char n = CHR ''=''"
  then have "b64_val (b64_char n) = b64_val CHR ''=''" by simp
  with n show False
    by (simp add: b64_val_char) (simp add: b64_val_def)
qed

lemma decode_group:
  assumes "p < 64" "q < 64" "r < 64" "s < 64"
  shows "base64_decode (b64_char p # b64_char q # b64_char r # b64_char s # t) =
    char_of (p * 4 + q div 16) # char_of (q mod 16 * 16 + r div 4) #
    char_of (r mod 4 * 64 + s) # base64_decode t"
  using assms
  by (simp add: base64_decode_def b64_char_not_pad b64_val_char List.map_filter_simps)

lemma decode_pad1:
  assumes "p < 64" "q < 64" "r < 64"
  shows "base64_decode [b64_char p, b64_char q, b64_char r, CHR ''=''] =
    [char_of (p * 4 + q div 16), char_of (q mod 16 * 16 + r div 4)]"
  using assms
  by (simp add: base64_decode_def b64_char_not_pad b64_val_char List.map_filter_simps)

lemma decode_pad2:
  assumes "p < 64" "q < 64"
  shows "base64_decode [b64_char p, b64_char q, CHR ''='', CHR ''=''] =
    [char_of (p * 4 + q div 16)]"
  using assms
  by (simp add: base64_decode_def b64_char_not_pad b64_val_char List.map_filter_simps)

lemma split_div: "b < n \<Longrightarrow> (a * n + b) div n = (a :: nat)"
  by simp

lemma split_mod: "b < n \<Longrightarrow> (a * n + b) mod n = (b :: nat)"
  by simp

lemma sextets:
  fixes x y z :: nat
  assumes "x < 256" "y < 256" "z < 256"
  shows "x div 4 < 64" "x mod 4 * 16 + y div 16 < 64" "y mod 16 * 4 + z div 64 < 64"
    "z mod 64 < 64" "x mod 4 * 16 < 64" "y mod 16 * 4 < 64"
proof -
  have a: "x mod 4 < 4" "y mod 16 < 16" by simp_all
  from assms have b: "x div 4 < 64" "y div 16 < 16" "z div 64 < 4"
    by (simp_all add: less_mult_imp_div_less)
  show "x div 4 < 64" by fact
  from a b show "x mod 4 * 16 + y div 16 < 64" by linarith
  from a b show "y mod 16 * 4 + z div 64 < 64" by linarith
  show "z mod 64 < 64" by simp
  from a show "x mod 4 * 16 < 64" by linarith
  from a show "y mod 16 * 4 < 64" by linarith
qed

lemma bytes:
  fixes x y z :: nat
  assumes "y < 256" "z < 256"
  shows "x div 4 * 4 + (x mod 4 * 16 + y div 16) div 16 = x"
    "(x mod 4 * 16 + y div 16) mod 16 * 16 + (y mod 16 * 4 + z div 64) div 4 = y"
    "(y mod 16 * 4 + z div 64) mod 4 * 64 + z mod 64 = z"
    "x div 4 * 4 + x mod 4 * 16 div 16 = x"
    "(x mod 4 * 16 + y div 16) mod 16 * 16 + y mod 16 * 4 div 4 = y"
proof -
  from assms have b: "y div 16 < 16" "z div 64 < 4"
    by (simp_all add: less_mult_imp_div_less)
  show "x div 4 * 4 + (x mod 4 * 16 + y div 16) div 16 = x"
    by (simp only: split_div [OF b(1)] div_mult_mod_eq)
  show "(x mod 4 * 16 + y div 16) mod 16 * 16 + (y mod 16 * 4 + z div 64) div 4 = y"
    by (simp only: split_mod [OF b(1)] split_div [OF b(2)] div_mult_mod_eq)
  show "(y mod 16 * 4 + z div 64) mod 4 * 64 + z mod 64 = z"
    by (simp only: split_mod [OF b(2)] div_mult_mod_eq)
  show "x div 4 * 4 + x mod 4 * 16 div 16 = x"
    by simp
  show "(x mod 4 * 16 + y div 16) mod 16 * 16 + y mod 16 * 4 div 4 = y"
    by (simp only: split_mod [OF b(1)]) simp
qed

lemma byte_bound: "(of_char (c :: char) :: nat) < 256"
  by simp

lemma base64_roundtrip: "base64_decode (base64_encode bs) = bs"
proof (induction bs rule: base64_encode.induct)
  case 1
  show ?case by (simp add: base64_decode_def List.map_filter_simps)
next
  case (2 a)
  let ?x = "of_char a :: nat"
  note s = sextets [OF byte_bound [of a] byte_bound [of a] byte_bound [of a]]
  note e = bytes [OF byte_bound [of a] byte_bound [of a]]
  have "base64_decode (base64_encode [a]) = [char_of (?x div 4 * 4 + ?x mod 4 * 16 div 16)]"
    using decode_pad2 [OF s(1) s(5)] by (simp add: Let_def)
  also have "\<dots> = [a]"
    by (simp only: e(4) char_of_char)
  finally show ?case .
next
  case (3 a b)
  let ?x = "of_char a :: nat" and ?y = "of_char b :: nat"
  note s = sextets [OF byte_bound [of a] byte_bound [of b] byte_bound [of b]]
  note e = bytes [OF byte_bound [of b] byte_bound [of b]]
  have "base64_decode (base64_encode [a, b]) =
      [char_of (?x div 4 * 4 + (?x mod 4 * 16 + ?y div 16) div 16),
       char_of ((?x mod 4 * 16 + ?y div 16) mod 16 * 16 + ?y mod 16 * 4 div 4)]"
    using decode_pad1 [OF s(1) s(2) s(6)] by (simp add: Let_def)
  also have "\<dots> = [a, b]"
    by (simp only: e(1) e(5) char_of_char)
  finally show ?case .
next
  case (4 a b c r)
  let ?x = "of_char a :: nat" and ?y = "of_char b :: nat" and ?z = "of_char c :: nat"
  note s = sextets [OF byte_bound [of a] byte_bound [of b] byte_bound [of c]]
  note e = bytes [OF byte_bound [of b] byte_bound [of c]]
  have "base64_decode (base64_encode (a # b # c # r)) =
      char_of (?x div 4 * 4 + (?x mod 4 * 16 + ?y div 16) div 16) #
      char_of ((?x mod 4 * 16 + ?y div 16) mod 16 * 16 + (?y mod 16 * 4 + ?z div 64) div 4) #
      char_of ((?y mod 16 * 4 + ?z div 64) mod 4 * 64 + ?z mod 64) #
      base64_decode (base64_encode r)"
    using decode_group [OF s(1) s(2) s(3) s(4)] by (simp add: Let_def)
  also have "\<dots> = a # b # c # r"
    by (simp only: e(1) e(2) e(3) "4.IH" char_of_char)
  finally show ?case .
qed

subsection \<open>Paths\<close>

lemma get_set_path: "get_path (set_path t ks v) ks = Some v"
  by (induction ks arbitrary: t) (simp_all add: update_conv')

lemma lodash_get_set:
  "is_object t \<Longrightarrow> lodash_get (Some (lodash_set t path v)) path = Some v"
  by (simp add: lodash_get_def lodash_set_def get_set_path)

lemma skip_ws_not_ws: "\<not> is_ws c \<Longrightarrow> skip_ws (c # cs) = c # cs"
  by simp

lemma parse_object_is_object:
  assumes "JSON_parse (JSON_stringify (JObj kvs)) = Some c"
  shows "is_object c"
proof -
  obtain t where t: "JSON_stringify (JObj kvs) = CHR ''{'' # t"
    by simp
  have ws: "skip_ws (CHR ''{'' # t) = CHR ''{'' # t"
    by (simp add: is_ws_def)
  from assms show ?thesis
    unfolding t JSON_parse_def
    by (auto simp: ws is_object_def split: option.splits list.splits if_splits
        simp del: skip_ws.simps)
qed

lemma deep_copy_object: "deep_copy (JObj kvs) = Inr c \<Longrightarrow> is_object c"
  using parse_object_is_object [of kvs c]
  by (auto simp: deep_copy_def JSON_parse_or_raise_def split: option.splits)

lemma get_path_Cons:
  "get_path t (k # q) = (case map_of (entries t) k of None \<Rightarrow> None | Some c \<Rightarrow> get_path c q)"
  by (cases t) (simp_all add: entries_def)

lemma get_path_child:
  "q \<noteq> [] \<Longrightarrow> get_path (child t k) q = get_path t (k # q)"
  by (cases q) (auto simp: get_path_Cons [of t] child_def split: option.splits)

lemma get_set_other:
  "\<not> prefix q ks \<Longrightarrow> \<not> prefix ks q \<Longrightarrow> get_path (set_path t ks v) q = get_path t q"
proof (induction ks arbitrary: t q)
  case Nil
  then show ?case by simp
next
  case (Cons k ks)
  from Cons.prems(1) obtain k' q' where q: "q = k' # q'"
    by (cases q) auto
  show ?case
  proof (cases "k' = k")
    case True
    with Cons.prems q have *: "\<not> prefix q' ks" "\<not> prefix ks q'"
      by simp_all
    then have "q' \<noteq> []" by auto
    from Cons.IH [OF *] have "get_path (set_path (child t k) ks v) q' = get_path (child t k) q'" .
    also have "\<dots> = get_path t (k # q')"
      using \<open>q' \<noteq> []\<close> by (rule get_path_child)
    finally show ?thesis
      using True q by (simp add: update_conv')
  next
    case False
    with q show ?thesis
      by (simp add: update_conv' get_path_Cons [of t])
  qed
qed

lemma unset_path_Cons:
  "unset_path t (k # ks) =
     (case t of
        JObj kvs \<Rightarrow>
          if ks = [] then JObj (AList.delete k kvs)
          else (case map_of kvs k of
                  None \<Rightarrow> t
                | Some c \<Rightarrow> JObj (AList.update k (unset_path c ks) kvs))
      | _ \<Rightarrow> t)"
  by (cases t; cases ks) (simp_all split: option.splits)

lemma get_unset_below:
  "ks \<noteq> [] \<Longrightarrow> prefix ks q \<Longrightarrow> get_path (unset_path t ks) q = None"
proof (induction ks arbitrary: t q)
  case Nil
  then show ?case by simp
next
  case (Cons k ks)
  from Cons.prems(2) obtain q' where q: "q = k # q'" "prefix ks q'"
    by (auto simp: prefix_def)
  show ?case
  proof (cases t)
    case (JObj kvs)
    show ?thesis
    proof (cases "ks = []")
      case True
      with JObj q show ?thesis
        by (simp add: delete_conv')
    next
      case False
      show ?thesis
      proof (cases "map_of kvs k")
        case None
        with JObj q False show ?thesis
          by (simp add: unset_path_Cons)
      next
        case (Some c)
        from Cons.IH [OF False q(2)] have "get_path (unset_path c ks) q' = None" .
        with JObj q False Some show ?thesis
          by (simp add: unset_path_Cons update_conv')
      qed
    qed
  qed (use q in \<open>simp_all add: unset_path_Cons\<close>)
qed

lemma get_unset_other:
  "\<not> prefix q ks \<Longrightarrow> \<not> prefix ks q \<Longrightarrow> get_path (unset_path t ks) q = get_path t q"
proof (induction ks arbitrary: t q)
  case Nil
  then show ?case by simp
next
  case (Cons k ks)
  from Cons.prems(1) obtain k' q' where q: "q = k' # q'"
    by (cases q) auto
  show ?case
  proof (cases t)
    case (JObj kvs)
    show ?thesis
    proof (cases "k' = k")
      case False
      with JObj q show ?thesis
        by (auto simp: unset_path_Cons update_conv' delete_conv' split: option.splits)
    next
      case True
      with Cons.prems q have *: "\<not> prefix q' ks" "\<not> prefix ks q'"
        by simp_all
      then have "ks \<noteq> []" by auto
      show ?thesis
      proof (cases "map_of kvs k")
        case None
        with JObj q \<open>ks \<noteq> []\<close> show ?thesis
          by (simp add: unset_path_Cons)
      next
        case (Some c)
        from Cons.IH [OF *] have "get_path (unset_path c ks) q' = get_path c q'" .
        with JObj q True Some \<open>ks \<noteq> []\<close> show ?thesis
          by (simp add: unset_path_Cons update_conv')
      qed
    qed
  qed (simp_all add: unset_path_Cons)
qed

lemma split_path_not_Nil [simp]: "split_path s \<noteq> []"
  by (induction s) (auto split: list.splits)

lemma wf_json_get_path: "wf_json t \<Longrightarrow> get_path t ks = Some v \<Longrightarrow> wf_json v"
proof (induction ks arbitrary: t)
  case Nil
  then show ?case by simp
next
  case (Cons k ks)
  from Cons.prems(2) obtain kvs c where t: "t = JObj kvs" "map_of kvs k = Some c"
    "get_path c ks = Some v"
    by (cases t) (auto split: option.splits)
  then have "(k, c) \<in> set kvs"
    by (auto dest: map_of_SomeD)
  with Cons.prems(1) t(1) have "wf_json c"
    by (auto simp: list_all_iff)
  then show ?case
    using t(3) by (rule Cons.IH)
qed

lemma get_path_is_object: "ks \<noteq> [] \<Longrightarrow> get_path t ks = Some v \<Longrightarrow> is_object t"
  by (cases ks; cases t) (simp_all add: is_object_def)

lemma lodash_get_set_other:
  "other_path P Q \<Longrightarrow> lodash_get (Some (lodash_set t P v)) Q = lodash_get (Some t) Q"
  by (simp add: other_path_def lodash_get_def lodash_set_def get_set_other)

lemma lodash_get_unset_below:
  "prefix (split_path P) (split_path Q) \<Longrightarrow> lodash_get (Some (lodash_unset t P)) Q = None"
  by (simp add: lodash_get_def lodash_unset_def get_unset_below)

lemma lodash_get_unset_same: "lodash_get (Some (lodash_unset t P)) P = None"
  by (rule lodash_get_unset_below) simp

lemma lodash_get_unset_other:
  "other_path P Q \<Longrightarrow> lodash_get (Some (lodash_unset t P)) Q = lodash_get (Some t) Q"
  by (simp add: other_path_def lodash_get_def lodash_unset_def get_unset_other)

lemma lodash_get_Some_is_object: "lodash_get (Some t) P = Some v \<Longrightarrow> is_object t"
  using get_path_is_object [of "split_path P" t v] by (simp add: lodash_get_def)

lemma lodash_get_binary_Some: "lodash_get b P = Some v \<Longrightarrow> \<exists>t. b = Some t"
  by (cases b) (simp_all add: lodash_get_def)

subsection \<open>What the two branches return\<close>

lemma JSON_parse_or_raise_Inr: "JSON_parse_or_raise s = Inr j \<longleftrightarrow> JSON_parse s = Some j"
  by (cases "JSON_parse s") (simp_all add: JSON_parse_or_raise_def)

text \<open>What \<open>binaryToJson_value\<close> returns when it raises nothing.\<close>

lemma binaryToJson_value_Inr:
  assumes "binaryToJson_value api p i it v = Inr out"
  shows "\<exists>d buf text newJson newBinary.
      prop_data v = Inr d \<and> Buffer_from_base64 api d = Inr buf \<and>
      bufferToString api (or_default (encoding (options p)) ''utf8'') buf = Inr text \<and>
      (if setAllData p i then JSON_parse text = Some newJson
       else \<exists>copy cv. deep_copy (json it) = Inr copy \<and>
         (if jsonParse (options p) then JSON_parse text = Some cv else cv = JStr text) \<and>
         newJson = lodash_set copy (destinationKey p i) cv) \<and>
      (if keepSource (options p) then newBinary = binary it
       else \<exists>b copy. binary it = Some b \<and> deep_copy b = Inr copy \<and>
         newBinary = Some (lodash_unset copy (sourceKey p i))) \<and>
      out = \<lparr>json = newJson, binary = newBinary\<rparr>"
  using assms unfolding binaryToJson_value_def
  apply (simp only: and_then_eq_Inr)
  apply (elim exE conjE)
  subgoal for d buf decoded newJson newBinary
    apply (rule exI [of _ d], rule exI [of _ buf], rule exI [of _ decoded],
        rule exI [of _ newJson], rule exI [of _ newBinary])
    apply (cases "setAllData p i"; cases "jsonParse (options p)"; cases "keepSource (options p)";
        cases "binary it")
                   apply (auto simp: and_then_eq_Inr JSON_parse_or_raise_Inr)
    done
  done

lemma jsonToBinary_value_Inr:
  assumes "jsonToBinary_value api p i it v = Inr out"
  shows "\<exists>newBinary buf newJson.
      (case binary it of Some b \<Rightarrow> deep_copy b = Inr newBinary | None \<Rightarrow> newBinary = JObj []) \<and>
      Buffer_from api (if useRawData (options p) then v else JStr (JSON_stringify v)) = Inr buf \<and>
      (if keepSource (options p) then newJson = json it
       else if convertAllData p i then newJson = JObj []
       else \<exists>copy. deep_copy (json it) = Inr copy \<and>
         newJson = lodash_unset copy (sourceKey p i)) \<and>
      out = \<lparr>json = newJson,
             binary = Some (lodash_set newBinary (destinationKey p i)
               (JObj [(''data'', JStr (base64_encode buf)),
                      (''mimeType'',
                       JStr (or_default (mimeType (options p)) ''application/json''))]))\<rparr>"
  using assms unfolding jsonToBinary_value_def Let_def
  apply (simp only: and_then_eq_Inr)
  apply (elim exE conjE)
  subgoal for newBinary buf newJson
    apply (rule exI [of _ newBinary], rule exI [of _ buf], rule exI [of _ newJson])
    apply (cases "keepSource (options p)"; cases "convertAllData p i"; cases "binary it")
           apply (auto simp: and_then_eq_Inr)
    done
  done

lemma wf_item_json: "wf_item it \<Longrightarrow> deep_copy (json it) = Inr (json it)"
  by (simp add: wf_item_def deep_copy_wf)

lemma wf_item_binary: "wf_item it \<Longrightarrow> binary it = Some b \<Longrightarrow> deep_copy b = Inr b \<and> is_object b"
  by (simp add: wf_item_def deep_copy_wf)

text \<open>The copy of a value in its one form is that value.\<close>

lemma wf_values_json: "wf_values it \<Longrightarrow> deep_copy (json it) = Inr (json it)"
  by (simp add: wf_values_def deep_copy_wf)

lemma wf_values_binary: "wf_values it \<Longrightarrow> binary it = Some b \<Longrightarrow> deep_copy b = Inr b"
  by (simp add: wf_values_def deep_copy_wf)

lemma wf_item_values: "wf_item it \<Longrightarrow> wf_values it"
  by (cases "binary it") (simp_all add: wf_item_def wf_values_def)

text \<open>What \<open>binaryToJson_value\<close> does with the text it decoded.\<close>

lemma binaryToJson_value_decoded:
  assumes "prop_data v = Inr d" and "Buffer_from_base64 api d = Inr bytes"
    and "bufferToString api (or_default (encoding (options p)) ''utf8'') bytes = Inr decoded"
    and "wf_values it" and "binary it = Some b"
  shows "binaryToJson_value api p i it v =
    and_then
      (if setAllData p i then JSON_parse_or_raise decoded
       else and_then
         (if jsonParse (options p) then JSON_parse_or_raise decoded else Inr (JStr decoded))
         (\<lambda>cv. Inr (lodash_set (json it) (destinationKey p i) cv)))
      (\<lambda>newJson. Inr \<lparr>json = newJson,
         binary = (if keepSource (options p) then binary it
                   else Some (lodash_unset b (sourceKey p i)))\<rparr>)"
proof -
  have c: "deep_copy (json it) = Inr (json it)" "deep_copy b = Inr b"
    using assms(4,5) by (simp_all add: wf_values_json wf_values_binary)
  show ?thesis
    unfolding binaryToJson_value_def
    by (simp add: assms(1,2,3,5) c cong: if_cong)
qed

lemma binaryToJson_value_undecoded:
  assumes "prop_data v = Inr d" and "Buffer_from_base64 api d = Inr bytes"
    and "bufferToString api (or_default (encoding (options p)) ''utf8'') bytes = Inl e"
  shows "binaryToJson_value api p i it v = Inl e"
  unfolding binaryToJson_value_def by (simp add: assms)

lemma jsonToBinary_value_stored:
  assumes "wf_values it"
    and "Buffer_from api (if useRawData (options p) then v else JStr (JSON_stringify v)) = Inr buf"
  shows "\<exists>newJson. jsonToBinary_value api p i it v =
    Inr \<lparr>json = newJson,
         binary = Some (lodash_set (case binary it of None \<Rightarrow> JObj [] | Some b \<Rightarrow> b)
           (destinationKey p i)
           (JObj [(''data'', JStr (base64_encode buf)),
                  (''mimeType'', JStr (or_default (mimeType (options p)) ''application/json''))]))\<rparr>"
proof -
  have b: "(case binary it of Some b \<Rightarrow> deep_copy b | None \<Rightarrow> Inr (JObj [])) =
      Inr (case binary it of None \<Rightarrow> JObj [] | Some b \<Rightarrow> b)"
    using assms(1) by (cases "binary it") (simp_all add: wf_values_binary)
  have c: "deep_copy (json it) = Inr (json it)"
    using assms(1) by (rule wf_values_json)
  show ?thesis
    unfolding jsonToBinary_value_def Let_def b
    by (simp add: assms(2) c)
qed

lemma jsonToBinary_value_unstored:
  assumes "wf_values it"
    and "Buffer_from api (if useRawData (options p) then v else JStr (JSON_stringify v)) = Inl e"
  shows "jsonToBinary_value api p i it v = Inl e"
proof -
  have b: "(case binary it of Some b \<Rightarrow> deep_copy b | None \<Rightarrow> Inr (JObj [])) =
      Inr (case binary it of None \<Rightarrow> JObj [] | Some b \<Rightarrow> b)"
    using assms(1) by (cases "binary it") (simp_all add: wf_values_binary)
  show ?thesis
    unfolding jsonToBinary_value_def Let_def b
    by (simp add: assms(2))
qed

lemma Buffer_from_JStr: "Buffer_from api (JStr s) = Inr s"
  by (simp add: Buffer_from_def)

lemma Buffer_from_base64_JStr: "Buffer_from_base64 api (Some (JStr s)) = Inr (base64_decode s)"
  by (simp add: Buffer_from_base64_def)

lemma JSON_parse_or_raise_stringify: "wf_json v \<Longrightarrow> JSON_parse_or_raise (JSON_stringify v) = Inr v"
  by (simp add: JSON_parse_or_raise_def JSON_parse_stringify)

lemma run_items_cong:
  "(\<And>k it. loop_body api p k it = loop_body api p' k it) \<Longrightarrow>
   run_items api p i items acc = run_items api p' i items acc"
  by (induction items arbitrary: i acc) (simp_all split: sum.splits option.splits)

lemma loop_body_default_encoding:
  assumes "encoding (options p) = None"
  shows "loop_body api p i it =
    loop_body api (p\<lparr>options := (options p)\<lparr>encoding := Some ''utf8''\<rparr>\<rparr>) i it"
proof -
  let ?p = "p\<lparr>options := (options p)\<lparr>encoding := Some ''utf8''\<rparr>\<rparr>"
  have b: "binaryToJson_value api ?p i it v = binaryToJson_value api p i it v" for v
    using assms by (simp add: binaryToJson_value_def or_default_def cong: if_cong)
  have j: "jsonToBinary_value api ?p i it v = jsonToBinary_value api p i it v" for v
    by (simp add: jsonToBinary_value_def cong: if_cong)
  show ?thesis
    by (simp add: loop_body_def binaryToJson_def jsonToBinary_def b j split: option.splits)
qed

lemma loop_body_default_mimeType:
  assumes "mimeType (options p) = None"
  shows "loop_body api p i it =
    loop_body api (p\<lparr>options := (options p)\<lparr>mimeType := Some ''application/json''\<rparr>\<rparr>) i it"
proof -
  let ?p = "p\<lparr>options := (options p)\<lparr>mimeType := Some ''application/json''\<rparr>\<rparr>"
  have b: "binaryToJson_value api ?p i it v = binaryToJson_value api p i it v" for v
    by (simp add: binaryToJson_value_def cong: if_cong)
  have j: "jsonToBinary_value api ?p i it v = jsonToBinary_value api p i it v" for v
    using assms by (simp add: jsonToBinary_value_def or_default_def cong: if_cong)
  show ?thesis
    by (simp add: loop_body_def binaryToJson_def jsonToBinary_def b j split: option.splits)
qed

lemma jsonToBinary_all_succeeds:
  assumes "convertAllData p i" "\<not> useRawData (options p)" "wf_item it"
  shows "\<exists>out. jsonToBinary_value api p i it (json it) = Inr out"
proof -
  have "(case binary it of Some b \<Rightarrow> deep_copy b | None \<Rightarrow> Inr (JObj [])) =
      Inr (case binary it of Some b \<Rightarrow> b | None \<Rightarrow> JObj [])"
    using assms(3) by (cases "binary it") (simp_all add: wf_item_def deep_copy_wf)
  with assms(1,2) show ?thesis
    by (simp add: jsonToBinary_value_def Buffer_from_JStr Let_def)
qed

lemma length_concat_singletons:
  "list_all (\<lambda>x. length (f x) = 1) xs \<Longrightarrow> length (concat (map f xs)) = length xs"
  by (induction xs) simp_all

subsection \<open>The mode check\<close>

text \<open>
  C10. If the input batch is empty, the conversion succeeds and returns an empty output
  batch, whatever the configured mode is, also a mode that is not one of the two known
  ones: the mode is checked for each item inside the loop, so with no item the error
  \<^verbatim>\<open>The operation ... is not known!\<close> is never raised.
\<close>

theorem empty_batch_succeeds: "execute api p [] = Inr []"
  by (simp add: execute_def)

text \<open>
  C6, as the spec states it, is false: for every input batch an unknown mode should
  fail the whole conversion. On the empty batch the conversion with the mode
  \<^verbatim>\<open>foo\<close> returns the empty output batch.
\<close>

theorem unknown_mode_empty_batch_counterexample:
  "mode (node_params ''foo'' no_options) \<noteq> ''binaryToJson'' \<and>
   mode (node_params ''foo'' no_options) \<noteq> ''jsonToBinary'' \<and>
   execute node_ascii (node_params ''foo'' no_options) [] = Inr []"
  by (simp add: execute_def node_params_def)

text \<open>
  C6, amended: for every input batch that is not empty, if the configured mode is
  neither \<^verbatim>\<open>binaryToJson\<close> nor \<^verbatim>\<open>jsonToBinary\<close>, the whole conversion fails at the first
  item with the error \<^verbatim>\<open>The operation "<mode>" is not known!\<close>, which names the mode;
  no output batch is returned.
\<close>

theorem unknown_mode_fails:
  assumes "items \<noteq> []"
    and "mode p \<noteq> ''binaryToJson''"
    and "mode p \<noteq> ''jsonToBinary''"
  shows "execute api p items =
    Inl (Error (''The operation '' @ [CHR 0x22] @ mode p @ [CHR 0x22] @ '' is not known!''))"
proof -
  from assms(1) obtain it rest where "items = it # rest"
    by (cases items) auto
  with assms(2,3) show ?thesis
    by (simp add: execute_def loop_body_def unknown_operation_def)
qed

theorem unknown_mode_fails_witness:
  "[\<lparr>json = JObj [], binary = None\<rparr>] \<noteq> [] \<and>
   execute node_ascii (node_params ''foo'' no_options) [\<lparr>json = JObj [], binary = None\<rparr>] =
     Inl (Error (''The operation '' @ [CHR 0x22] @ ''foo'' @ [CHR 0x22] @ '' is not known!''))"
  using unknown_mode_fails [of "[\<lparr>json = JObj [], binary = None\<rparr>]"
      "node_params ''foo'' no_options" node_ascii]
  by (simp add: node_params_def)

subsection \<open>The scenario of the spec\<close>

text \<open>
  C7. The input item with the structured value \<^verbatim>\<open>{a: 1}\<close> and an empty binary mapping,
  converted in the mode \<^verbatim>\<open>jsonToBinary\<close> with \<^verbatim>\<open>convertAllData = true\<close>,
  \<^verbatim>\<open>destinationKey = "data"\<close>, \<^verbatim>\<open>useRawData = false\<close>, \<^verbatim>\<open>keepSource = false\<close> and no
  \<^verbatim>\<open>mimeType\<close>, gives one output item: its structured value is the empty map and its
  binary mapping has exactly the entry \<^verbatim>\<open>data\<close>, whose \<^verbatim>\<open>data\<close> is the base64 encoding of
  the serialized text \<^verbatim>\<open>{"a":1}\<close> and whose \<^verbatim>\<open>mimeType\<close> is \<^verbatim>\<open>application/json\<close>. The
  binary mapping of the input may be \<^verbatim>\<open>{}\<close> or absent.
\<close>

theorem scenario_json_to_binary:
  \<open>execute api
     \<lparr>mode = ''jsonToBinary'',
      options = \<lparr>encoding = enc, jsonParse = jp, keepSource = False, mimeType = None,
                 useRawData = False\<rparr>,
      setAllData = sad, sourceKey = sk, destinationKey = (\<lambda>i. ''data''),
      convertAllData = (\<lambda>i. True)\<rparr>
     [\<lparr>json = JObj [(''a'', JNum 1)], binary = Some (JObj [])\<rparr>]
   = Inr [\<lparr>json = JObj [],
           binary = Some (JObj [(''data'',
             JObj [(''data'', JStr (base64_encode ''{"a":1}'')),
                   (''mimeType'', JStr ''application/json'')])])\<rparr>]
   \<and>
   execute api
     \<lparr>mode = ''jsonToBinary'',
      options = \<lparr>encoding = enc, jsonParse = jp, keepSource = False, mimeType = None,
                 useRawData = False\<rparr>,
      setAllData = sad, sourceKey = sk, destinationKey = (\<lambda>i. ''data''),
      convertAllData = (\<lambda>i. True)\<rparr>
     [\<lparr>json = JObj [(''a'', JNum 1)], binary = None\<rparr>]
   = Inr [\<lparr>json = JObj [],
           binary = Some (JObj [(''data'',
             JObj [(''data'', JStr (base64_encode ''{"a":1}'')),
                   (''mimeType'', JStr ''application/json'')])])\<rparr>]
   \<and> JSON_stringify (JObj [(''a'', JNum 1)]) = ''{"a":1}''
   \<and> base64_encode ''{"a":1}'' = ''eyJhIjoxfQ==''\<close>
proof -
  have s: \<open>JSON_stringify (JObj [(''a'', JNum 1)]) = ''{"a":1}''\<close>
    by code_simp
  have c: "deep_copy (JObj []) = Inr (JObj [])"
    by code_simp
  have a: "and_then (Inr x) f = f x" for x :: "'a" and f :: "'a \<Rightarrow> error + 'b"
    by (simp add: and_then_def)
  have p: "lodash_set (JObj []) ''data'' v = JObj [(''data'', v)]" for v
    by (simp add: lodash_set_def is_object_def entries_def child_def)
  have b: \<open>base64_encode ''{"a":1}'' = ''eyJhIjoxfQ==''\<close>
    by code_simp
  have g: "Buffer_from api (JStr t) = Inr t" for t
    by (simp add: Buffer_from_def)
  show ?thesis
    unfolding execute_def
    by (simp add: loop_body_def jsonToBinary_def jsonToBinary_value_def a s c p g b
         or_default_def del: base64_encode.simps JSON_stringify.simps)
qed

subsection \<open>Dropped records and the order of the others\<close>

text \<open>
  C1, as the spec states it, is false: every record whose source path is present should
  produce exactly one output record. A record may have its source and still produce
  none, because its conversion raises: in the mode \<^verbatim>\<open>binaryToJson\<close> with
  \<^verbatim>\<open>setAllData\<close>, the record whose payload at \<^verbatim>\<open>data\<close> is the text \<^verbatim>\<open>hello\<close> has its
  source, \<^verbatim>\<open>JSON.parse\<close> raises on it, and \<^verbatim>\<open>execute\<close> returns no batch.
\<close>

theorem present_source_without_output_counterexample:
  "\<not> source_absent (node_params ''binaryToJson'' no_options) 0 (text_item ''hello'') \<and>
   execute node_ascii (node_params ''binaryToJson'' no_options) [text_item ''hello''] =
     Inl SyntaxError"
  by code_simp

text \<open>
  C1, amended: for every input batch and every mode, whenever the conversion of the
  batch raises no error, a record whose requested source path is absent (\<^verbatim>\<open>get\<close>
  returns \<^verbatim>\<open>undefined\<close>: the binary \<^verbatim>\<open>sourceKey\<close> in \<^verbatim>\<open>binaryToJson\<close>, the structured
  \<^verbatim>\<open>sourceKey\<close> in \<^verbatim>\<open>jsonToBinary\<close> when not all data is converted) produces no output
  record, every other record produces exactly one output record, and the output batch
  is these records in the order of the input batch. So the output batch is shorter than
  the input batch by the number of records without their source.
\<close>

theorem surviving_records_in_order:
  assumes "execute api p items = Inr out"
  shows "out = concat (map (\<lambda>(i, it). outputs_of api p i it) (enumerate 0 items)) \<and>
    list_all (\<lambda>(i, it). length (outputs_of api p i it) = (if source_absent p i it then 0 else 1))
      (enumerate 0 items) \<and>
    length out = length (filter (\<lambda>(i, it). \<not> source_absent p i it) (enumerate 0 items))"
proof -
  from assms have ok: "list_all (\<lambda>(j, it). \<not> raises api p j it) (enumerate 0 items)"
    and out: "out = concat (map (\<lambda>(i, it). outputs_of api p i it) (enumerate 0 items))"
    by (simp_all add: execute_def run_items_Inr)
  have each: "list_all
      (\<lambda>(i, it). length (outputs_of api p i it) = (if source_absent p i it then 0 else 1))
      (enumerate 0 items)"
    unfolding list_all_iff
  proof
    fix x
    assume "x \<in> set (enumerate 0 items)"
    with ok have "\<not> raises api p (fst x) (snd x)"
      by (auto simp: list_all_iff)
    from outputs_of_length [OF this]
    show "case x of (i, it) \<Rightarrow>
        length (outputs_of api p i it) = (if source_absent p i it then 0 else 1)"
      by (simp add: case_prod_unfold)
  qed
  have "length out = length (filter (\<lambda>x. \<not> (case x of (i, it) \<Rightarrow> source_absent p i it))
      (enumerate 0 items))"
    unfolding out
    by (rule count_outputs) (use each in \<open>simp add: case_prod_unfold\<close>)
  then have "length out =
      length (filter (\<lambda>(i, it). \<not> source_absent p i it) (enumerate 0 items))"
    by (simp add: case_prod_unfold)
  with out each show ?thesis by simp
qed

theorem surviving_records_in_order_witness:
  "execute node_ascii (node_params ''binaryToJson'' no_options)
      [text_item ''1'', \<lparr>json = JObj [], binary = None\<rparr>, text_item ''2''] =
     Inr [\<lparr>json = JNum 1, binary = Some (JObj [])\<rparr>, \<lparr>json = JNum 2, binary = Some (JObj [])\<rparr>] \<and>
   [\<lparr>json = JNum 1, binary = Some (JObj [])\<rparr>, \<lparr>json = JNum 2, binary = Some (JObj [])\<rparr>] =
     concat (map (\<lambda>(i, it). outputs_of node_ascii (node_params ''binaryToJson'' no_options) i it)
       (enumerate 0 [text_item ''1'', \<lparr>json = JObj [], binary = None\<rparr>, text_item ''2''])) \<and>
   length [\<lparr>json = JNum 1, binary = Some (JObj [])\<rparr>, \<lparr>json = JNum 2, binary = Some (JObj [])\<rparr>] =
     length (filter (\<lambda>(i, it). \<not> source_absent (node_params ''binaryToJson'' no_options) i it)
       (enumerate 0 [text_item ''1'', \<lparr>json = JObj [], binary = None\<rparr>, text_item ''2'']))"
proof -
  have h: "execute node_ascii (node_params ''binaryToJson'' no_options)
      [text_item ''1'', \<lparr>json = JObj [], binary = None\<rparr>, text_item ''2''] =
     Inr [\<lparr>json = JNum 1, binary = Some (JObj [])\<rparr>, \<lparr>json = JNum 2, binary = Some (JObj [])\<rparr>]"
    by code_simp
  from surviving_records_in_order [OF h] h show ?thesis
    by blast
qed

subsection \<open>A text that does not parse\<close>

text \<open>
  C3, as the spec states it, is false: a record whose text does not parse should not
  abort the conversion of its siblings. The record with the text \<^verbatim>\<open>1\<close> converts on its
  own; in a batch with the record whose text is \<^verbatim>\<open>hello\<close> behind it, \<^verbatim>\<open>execute\<close> raises
  the \<^verbatim>\<open>SyntaxError\<close> and returns nothing, also not the output of the first record.
\<close>

theorem parse_failure_aborts_siblings_counterexample:
  "execute node_ascii (node_params ''binaryToJson'' no_options) [text_item ''1''] =
     Inr [\<lparr>json = JNum 1, binary = Some (JObj [])\<rparr>] \<and>
   execute node_ascii (node_params ''binaryToJson'' no_options)
     [text_item ''1'', text_item ''hello''] = Inl SyntaxError"
  by code_simp

text \<open>
  C3, amended: for every batch in the mode \<^verbatim>\<open>binaryToJson\<close> that contains a record
  whose decoded text is not valid JSON while \<^verbatim>\<open>setAllData\<close> or \<^verbatim>\<open>jsonParse\<close> is
  requested, and in which no earlier record raises, the conversion of that record
  raises the \<^verbatim>\<open>SyntaxError\<close> of \<^verbatim>\<open>JSON.parse\<close>, and with it the conversion of the whole
  batch is aborted: \<^verbatim>\<open>execute\<close> fails with that error and returns no output for any
  record, before or after. (The code has no handler around the body of its loop.)
\<close>

theorem parse_failure_aborts_batch:
  assumes "mode p = ''binaryToJson''"
    and "list_all (\<lambda>(j, it). \<not> raises api p j it) (enumerate 0 pre)"
    and "lodash_get (binary it) (sourceKey p (length pre)) = Some v"
    and "prop_data v = Inr d"
    and "Buffer_from_base64 api d = Inr buf"
    and "bufferToString api (or_default (encoding (options p)) ''utf8'') buf = Inr text"
    and "JSON_parse text = None"
    and "setAllData p (length pre) \<or> jsonParse (options p)"
  shows "execute api p (pre @ it # post) = Inl SyntaxError"
proof -
  have "binaryToJson_value api p (length pre) it v = Inl SyntaxError"
  proof (cases "setAllData p (length pre)")
    case True
    with assms(4-7) show ?thesis
      by (simp add: binaryToJson_value_def JSON_parse_or_raise_None)
  next
    case False
    with assms(8) have jp: "jsonParse (options p)" by simp
    show ?thesis
      by (rule deep_copy_cases [of "json it"])
        (use False jp assms(4-7) in
          \<open>simp_all add: binaryToJson_value_def JSON_parse_or_raise_None\<close>)
  qed
  with assms(1,3) have "loop_body api p (0 + length pre) it = Inl SyntaxError"
    by (simp add: loop_body_def binaryToJson_def)
  with assms(2) show ?thesis
    unfolding execute_def by (rule run_items_Inl)
qed

theorem parse_failure_aborts_batch_witness:
  "mode (node_params ''binaryToJson'' no_options) = ''binaryToJson'' \<and>
   lodash_get (binary (text_item ''hello''))
     (sourceKey (node_params ''binaryToJson'' no_options) (length [text_item ''1''])) =
     Some (JObj [(''data'', JStr (base64_encode ''hello'')), (''mimeType'', JStr ''text/plain'')]) \<and>
   JSON_parse ''hello'' = None \<and>
   setAllData (node_params ''binaryToJson'' no_options) (length [text_item ''1'']) \<and>
   execute node_ascii (node_params ''binaryToJson'' no_options)
     ([text_item ''1''] @ text_item ''hello'' # [text_item ''2'']) = Inl SyntaxError"
proof -
  let ?p = "node_params ''binaryToJson'' no_options"
  let ?v = "JObj [(''data'', JStr (base64_encode ''hello'')), (''mimeType'', JStr ''text/plain'')]"
  have 1: "mode ?p = ''binaryToJson''"
    by (simp add: node_params_def)
  have 2: "list_all (\<lambda>(j, it). \<not> raises node_ascii ?p j it) (enumerate 0 [text_item ''1''])"
    by code_simp
  have 3: "lodash_get (binary (text_item ''hello'')) (sourceKey ?p (length [text_item ''1''])) =
      Some ?v"
    by code_simp
  have 4: "prop_data ?v = Inr (Some (JStr (base64_encode ''hello'')))"
    by code_simp
  have 5: "Buffer_from_base64 node_ascii (Some (JStr (base64_encode ''hello''))) = Inr ''hello''"
    by code_simp
  have 6: "bufferToString node_ascii (or_default (encoding (options ?p)) ''utf8'') ''hello'' =
      Inr ''hello''"
    by code_simp
  have 7: "JSON_parse ''hello'' = None"
    by code_simp
  have 8: "setAllData ?p (length [text_item ''1'']) \<or> jsonParse (options ?p)"
    by (simp add: node_params_def)
  from parse_failure_aborts_batch [OF 1 2 3 4 5 6 7 8, of "[text_item ''2'']"] 1 3 7 8
  show ?thesis
    by (simp add: node_params_def)
qed

text \<open>
  A numeral with an exponent or a fraction is valid JSON, so a record with such a text
  raises nothing: the batch of the texts \<^verbatim>\<open>1\<close>, \<^verbatim>\<open>1e2\<close>, \<^verbatim>\<open>2.0\<close> and \<^verbatim>\<open>1.5\<close> converts to
  the numbers 1, 100, 2 and 1.5.
\<close>

lemma numerals_convert:
  "execute node_ascii (node_params ''binaryToJson'' no_options)
     [text_item ''1'', text_item ''1e2'', text_item ''2.0'', text_item ''1.5''] =
   Inr [\<lparr>json = JNum 1, binary = Some (JObj [])\<rparr>, \<lparr>json = JNum 100, binary = Some (JObj [])\<rparr>,
        \<lparr>json = JNum 2, binary = Some (JObj [])\<rparr>, \<lparr>json = JDec 15 1, binary = Some (JObj [])\<rparr>]"
  by code_simp

subsection \<open>Moving one binary entry to a structured path\<close>

text \<open>
  C5, as the spec states it, is false, in two ways. Every record with a binary entry at
  \<open>P\<close> should yield an output record: with \<^verbatim>\<open>setAllData = false\<close>,
  \<^verbatim>\<open>keepSource = false\<close> and \<^verbatim>\<open>jsonParse\<close> set, the record whose entry at \<^verbatim>\<open>data\<close> holds
  the text \<^verbatim>\<open>hello\<close> yields none, since \<^verbatim>\<open>JSON.parse\<close> raises. And the output should have
  a new value at the destination path: the record whose structured value is the number
  \<^verbatim>\<open>1\<close> converts without an error, loses its binary entry, and has no value at the
  destination \<^verbatim>\<open>data\<close>, since \<^verbatim>\<open>set\<close> returns a value that is not an object as it is.
\<close>

theorem partial_conversion_counterexample:
  "lodash_get (binary (text_item ''hello''))
     (sourceKey (partial_params ''binaryToJson'' (no_options\<lparr>jsonParse := True\<rparr>)) 0) =
     Some (JObj [(''data'', JStr (base64_encode ''hello'')), (''mimeType'', JStr ''text/plain'')]) \<and>
   setAllData (partial_params ''binaryToJson'' (no_options\<lparr>jsonParse := True\<rparr>)) 0 = False \<and>
   keepSource (options (partial_params ''binaryToJson'' (no_options\<lparr>jsonParse := True\<rparr>))) = False \<and>
   execute node_ascii (partial_params ''binaryToJson'' (no_options\<lparr>jsonParse := True\<rparr>))
     [text_item ''hello''] = Inl SyntaxError \<and>
   execute node_ascii (partial_params ''binaryToJson'' no_options)
     [\<lparr>json = JNum 1, binary = binary (text_item ''hello'')\<rparr>] =
     Inr [\<lparr>json = JNum 1, binary = Some (JObj [])\<rparr>] \<and>
   lodash_get (Some (JNum 1)) (destinationKey (partial_params ''binaryToJson'' no_options) 0) =
     None"
  by code_simp

text \<open>
  C5, amended: for every record that has a binary entry at path \<open>P\<close>, converting in the
  mode \<^verbatim>\<open>binaryToJson\<close> with \<^verbatim>\<open>sourceKey = P\<close>, \<^verbatim>\<open>setAllData = false\<close> and
  \<^verbatim>\<open>keepSource = false\<close>, whenever the conversion of the record raises no error, yields
  an output record whose structured value is the input structured value after \<^verbatim>\<open>set\<close> of
  one new value at the destination path, which when the input structured value is an
  object equals the input structured value with that value written at the destination
  path, all other structured paths unchanged, and whose binary mapping equals the input
  binary mapping with the entry at \<open>P\<close> removed. The new value is the decoded text of the
  payload, or what it parses to when \<^verbatim>\<open>jsonParse\<close> is set.

  The second half of the theorem says when no error is raised: whenever the payload
  decodes and, with \<^verbatim>\<open>jsonParse\<close>, the decoded text parses, the record yields its output.
  The values of the record are in their one form (\<open>wf_values\<close>); another path is one
  that is neither inside the written or removed location nor contains it
  (\<open>other_path\<close>).
\<close>

theorem binary_to_json_partial:
  assumes "wf_values it"
    and "mode p = ''binaryToJson''"
    and "lodash_get (binary it) (sourceKey p i) = Some entry"
    and "setAllData p i = False"
    and "keepSource (options p) = False"
  shows "(\<forall>r. loop_body api p i it = Inr r \<longrightarrow>
      (\<exists>out cv b d bytes decoded. r = Some out \<and> binary it = Some b \<and>
         prop_data entry = Inr d \<and> Buffer_from_base64 api d = Inr bytes \<and>
         bufferToString api (or_default (encoding (options p)) ''utf8'') bytes = Inr decoded \<and>
         (if jsonParse (options p) then JSON_parse decoded = Some cv else cv = JStr decoded) \<and>
         json out = lodash_set (json it) (destinationKey p i) cv \<and>
         (is_object (json it) \<longrightarrow>
            lodash_get (Some (json out)) (destinationKey p i) = Some cv) \<and>
         (\<forall>Q. other_path (destinationKey p i) Q \<longrightarrow>
            lodash_get (Some (json out)) Q = lodash_get (Some (json it)) Q) \<and>
         binary out = Some (lodash_unset b (sourceKey p i)) \<and>
         lodash_get (binary out) (sourceKey p i) = None \<and>
         (\<forall>Q. other_path (sourceKey p i) Q \<longrightarrow>
            lodash_get (binary out) Q = lodash_get (binary it) Q))) \<and>
    (\<forall>d bytes decoded cv.
       prop_data entry = Inr d \<and> Buffer_from_base64 api d = Inr bytes \<and>
       bufferToString api (or_default (encoding (options p)) ''utf8'') bytes = Inr decoded \<and>
       (if jsonParse (options p) then JSON_parse decoded = Some cv else cv = JStr decoded) \<longrightarrow>
       (\<exists>out. loop_body api p i it = Inr (Some out) \<and>
          json out = lodash_set (json it) (destinationKey p i) cv))"
proof (intro conjI allI impI)
  fix r
  assume r: "loop_body api p i it = Inr r"
  from assms(2,3) r obtain out where out: "r = Some out"
    "binaryToJson_value api p i it entry = Inr out"
    by (auto simp: loop_body_def binaryToJson_def and_then_eq_Inr)
  from binaryToJson_value_Inr [OF out(2)] assms(4,5)
  obtain d bytes decoded copy cv b bcopy where
    dec: "prop_data entry = Inr d" "Buffer_from_base64 api d = Inr bytes"
      "bufferToString api (or_default (encoding (options p)) ''utf8'') bytes = Inr decoded"
    and cv: "if jsonParse (options p) then JSON_parse decoded = Some cv else cv = JStr decoded"
    and copy: "deep_copy (json it) = Inr copy"
    and b: "binary it = Some b" "deep_copy b = Inr bcopy"
    and o: "out = \<lparr>json = lodash_set copy (destinationKey p i) cv,
                    binary = Some (lodash_unset bcopy (sourceKey p i))\<rparr>"
    by auto
  from copy wf_values_json [OF assms(1)] have c1: "copy = json it" by simp
  from b wf_values_binary [OF assms(1) b(1)] have c2: "bcopy = b" by simp
  have j: "json out = lodash_set (json it) (destinationKey p i) cv"
    and bo: "binary out = Some (lodash_unset b (sourceKey p i))"
    using o c1 c2 by simp_all
  have 1: "is_object (json it) \<longrightarrow> lodash_get (Some (json out)) (destinationKey p i) = Some cv"
    unfolding j by (simp add: lodash_get_set)
  have 2: "\<forall>Q. other_path (destinationKey p i) Q \<longrightarrow>
      lodash_get (Some (json out)) Q = lodash_get (Some (json it)) Q"
    unfolding j by (simp add: lodash_get_set_other)
  have 3: "lodash_get (binary out) (sourceKey p i) = None"
    unfolding bo by (rule lodash_get_unset_same)
  have 4: "\<forall>Q. other_path (sourceKey p i) Q \<longrightarrow>
      lodash_get (binary out) Q = lodash_get (binary it) Q"
    unfolding bo b(1) by (simp add: lodash_get_unset_other)
  from out(1) b(1) dec cv j 1 2 bo 3 4
  show "\<exists>out cv b d bytes decoded. r = Some out \<and> binary it = Some b \<and>
      prop_data entry = Inr d \<and> Buffer_from_base64 api d = Inr bytes \<and>
      bufferToString api (or_default (encoding (options p)) ''utf8'') bytes = Inr decoded \<and>
      (if jsonParse (options p) then JSON_parse decoded = Some cv else cv = JStr decoded) \<and>
      json out = lodash_set (json it) (destinationKey p i) cv \<and>
      (is_object (json it) \<longrightarrow>
         lodash_get (Some (json out)) (destinationKey p i) = Some cv) \<and>
      (\<forall>Q. other_path (destinationKey p i) Q \<longrightarrow>
         lodash_get (Some (json out)) Q = lodash_get (Some (json it)) Q) \<and>
      binary out = Some (lodash_unset b (sourceKey p i)) \<and>
      lodash_get (binary out) (sourceKey p i) = None \<and>
      (\<forall>Q. other_path (sourceKey p i) Q \<longrightarrow>
         lodash_get (binary out) Q = lodash_get (binary it) Q)"
    by blast
next
  fix d bytes decoded cv
  assume a: "prop_data entry = Inr d \<and> Buffer_from_base64 api d = Inr bytes \<and>
    bufferToString api (or_default (encoding (options p)) ''utf8'') bytes = Inr decoded \<and>
    (if jsonParse (options p) then JSON_parse decoded = Some cv else cv = JStr decoded)"
  from assms(3) obtain b where b: "binary it = Some b"
    using lodash_get_binary_Some by blast
  from a have "prop_data entry = Inr d" "Buffer_from_base64 api d = Inr bytes"
    "bufferToString api (or_default (encoding (options p)) ''utf8'') bytes = Inr decoded"
    by simp_all
  note v = binaryToJson_value_decoded [OF this assms(1) b, of i]
  from a have "(if jsonParse (options p) then JSON_parse_or_raise decoded else Inr (JStr decoded)) =
      Inr cv"
    by (simp add: JSON_parse_or_raise_Inr split: if_splits)
  with v assms(4) have "binaryToJson_value api p i it entry =
      Inr \<lparr>json = lodash_set (json it) (destinationKey p i) cv,
           binary = (if keepSource (options p) then binary it
                     else Some (lodash_unset b (sourceKey p i)))\<rparr>"
    by simp
  with assms(2,3) show "\<exists>out. loop_body api p i it = Inr (Some out) \<and>
      json out = lodash_set (json it) (destinationKey p i) cv"
    by (simp add: loop_body_def binaryToJson_def)
qed

theorem binary_to_json_partial_witness:
  "wf_values (text_item ''hello'') \<and>
   mode (partial_params ''binaryToJson'' no_options) = ''binaryToJson'' \<and>
   lodash_get (binary (text_item ''hello''))
     (sourceKey (partial_params ''binaryToJson'' no_options) 0) =
     Some (JObj [(''data'', JStr (base64_encode ''hello'')), (''mimeType'', JStr ''text/plain'')]) \<and>
   loop_body node_ascii (partial_params ''binaryToJson'' no_options) 0 (text_item ''hello'') =
     Inr (Some \<lparr>json = JObj [(''data'', JStr ''hello'')], binary = Some (JObj [])\<rparr>) \<and>
   is_object (json (text_item ''hello'')) \<and>
   (\<exists>out cv b d bytes decoded.
      Some \<lparr>json = JObj [(''data'', JStr ''hello'')], binary = Some (JObj [])\<rparr> = Some out \<and>
      binary (text_item ''hello'') = Some b \<and>
      bufferToString node_ascii ''utf8'' bytes = Inr decoded \<and>
      cv = JStr decoded \<and>
      json out = lodash_set (json (text_item ''hello'')) ''data'' cv \<and>
      lodash_get (Some (json out)) ''data'' = Some cv \<and>
      binary out = Some (lodash_unset b ''data'') \<and>
      lodash_get (binary out) ''data'' = None)"
proof -
  let ?p = "partial_params ''binaryToJson'' no_options"
  let ?e = "JObj [(''data'', JStr (base64_encode ''hello'')), (''mimeType'', JStr ''text/plain'')]"
  let ?o = "\<lparr>json = JObj [(''data'', JStr ''hello'')], binary = Some (JObj [])\<rparr>"
  have 1: "wf_values (text_item ''hello'')" by code_simp
  have 2: "mode ?p = ''binaryToJson''" by (simp add: partial_params_def)
  have 3: "lodash_get (binary (text_item ''hello'')) (sourceKey ?p 0) = Some ?e" by code_simp
  have 4: "setAllData ?p 0 = False" by (simp add: partial_params_def)
  have 5: "keepSource (options ?p) = False" by (simp add: partial_params_def no_options_def)
  have 6: "loop_body node_ascii ?p 0 (text_item ''hello'') = Inr (Some ?o)" by code_simp
  have 7: "jsonParse (options ?p) = False" "destinationKey ?p 0 = ''data''"
    "sourceKey ?p 0 = ''data''" "or_default (encoding (options ?p)) ''utf8'' = ''utf8''"
    by (simp_all add: partial_params_def no_options_def or_default_def)
  have 8: "is_object (json (text_item ''hello''))" by code_simp
  from binary_to_json_partial [OF 1 2 3 4 5, of node_ascii, THEN conjunct1, rule_format, OF 6]
  have "\<exists>out cv b d bytes decoded.
      Some ?o = Some out \<and>
      binary (text_item ''hello'') = Some b \<and>
      bufferToString node_ascii ''utf8'' bytes = Inr decoded \<and>
      cv = JStr decoded \<and>
      json out = lodash_set (json (text_item ''hello'')) ''data'' cv \<and>
      lodash_get (Some (json out)) ''data'' = Some cv \<and>
      binary out = Some (lodash_unset b ''data'') \<and>
      lodash_get (binary out) ''data'' = None"
    unfolding 7 using 8 by (simp only: if_False) blast
  with 1 2 3 6 8 show ?thesis
    unfolding 7 by blast
qed

subsection \<open>Keeping or removing the source\<close>

text \<open>
  C4. For every record on which the conversion succeeds: if \<^verbatim>\<open>keepSource\<close> is true, the
  source side of the output is the source side of the input, unchanged, and still has
  the value at the source location; if \<^verbatim>\<open>keepSource\<close> is false, the source side of the
  output is the source side of the input with exactly the source location removed:
  nothing is left at the source location, and every other path has the value it had.
  The source side is the binary mapping in the mode \<^verbatim>\<open>binaryToJson\<close> and the structured
  value in the mode \<^verbatim>\<open>jsonToBinary\<close>; when all data is converted the source location is
  the whole structured value, and the empty object is left. Records are as their type
  has them (\<open>wf_item\<close>); another path is one that is neither inside the source
  location nor contains it (\<open>other_path\<close>).
\<close>

theorem keep_source_frame:
  assumes "wf_item it"
    and "loop_body api p i it = Inr (Some out)"
  shows
    "(mode p = ''binaryToJson'' \<and> keepSource (options p) \<longrightarrow>
        binary out = binary it \<and>
        lodash_get (binary out) (sourceKey p i) = lodash_get (binary it) (sourceKey p i) \<and>
        lodash_get (binary out) (sourceKey p i) \<noteq> None) \<and>
     (mode p = ''jsonToBinary'' \<and> keepSource (options p) \<longrightarrow>
        json out = json it \<and>
        (\<not> convertAllData p i \<longrightarrow>
           lodash_get (Some (json out)) (sourceKey p i) =
             lodash_get (Some (json it)) (sourceKey p i) \<and>
           lodash_get (Some (json out)) (sourceKey p i) \<noteq> None)) \<and>
     (mode p = ''binaryToJson'' \<and> \<not> keepSource (options p) \<longrightarrow>
        (\<exists>b. binary it = Some b \<and> binary out = Some (lodash_unset b (sourceKey p i))) \<and>
        lodash_get (binary out) (sourceKey p i) = None \<and>
        (\<forall>Q. other_path (sourceKey p i) Q \<longrightarrow>
           lodash_get (binary out) Q = lodash_get (binary it) Q)) \<and>
     (mode p = ''jsonToBinary'' \<and> \<not> keepSource (options p) \<and> \<not> convertAllData p i \<longrightarrow>
        json out = lodash_unset (json it) (sourceKey p i) \<and>
        lodash_get (Some (json out)) (sourceKey p i) = None \<and>
        (\<forall>Q. other_path (sourceKey p i) Q \<longrightarrow>
           lodash_get (Some (json out)) Q = lodash_get (Some (json it)) Q)) \<and>
     (mode p = ''jsonToBinary'' \<and> \<not> keepSource (options p) \<and> convertAllData p i \<longrightarrow>
        json out = JObj [] \<and> (\<forall>Q. lodash_get (Some (json out)) Q = None))"
proof -
  have b2j: ?thesis if m: "mode p = ''binaryToJson''"
  proof -
    from assms(2) m obtain entry where e: "lodash_get (binary it) (sourceKey p i) = Some entry"
      "binaryToJson_value api p i it entry = Inr out"
      by (auto simp: loop_body_def binaryToJson_def and_then_eq_Inr split: option.splits)
    show ?thesis
    proof (cases "keepSource (options p)")
      case True
      with binaryToJson_value_Inr [OF e(2)] have "binary out = binary it"
        by auto
      with m True e(1) show ?thesis by simp
    next
      case False
      with binaryToJson_value_Inr [OF e(2)] obtain b copy where
        b: "binary it = Some b" "deep_copy b = Inr copy"
        "binary out = Some (lodash_unset copy (sourceKey p i))"
        by auto
      with wf_item_binary [OF assms(1) b(1)] have "copy = b" by simp
      with m False b show ?thesis
        by (simp add: lodash_get_unset_same lodash_get_unset_other)
    qed
  qed
  have j2b: ?thesis if m: "mode p = ''jsonToBinary''"
  proof -
    from m have nm: "mode p \<noteq> ''binaryToJson''" by simp
    from assms(2) m obtain v where v: "jsonToBinary_value api p i it v = Inr out"
      "\<not> convertAllData p i \<longrightarrow> lodash_get (Some (json it)) (sourceKey p i) = Some v"
      by (auto simp: loop_body_def jsonToBinary_def and_then_eq_Inr
          split: option.splits if_splits)
    from jsonToBinary_value_Inr [OF v(1)] have
      k: "keepSource (options p) \<Longrightarrow> json out = json it"
      and a: "\<not> keepSource (options p) \<Longrightarrow> convertAllData p i \<Longrightarrow> json out = JObj []"
      and u: "\<not> keepSource (options p) \<Longrightarrow> \<not> convertAllData p i \<Longrightarrow>
        \<exists>copy. deep_copy (json it) = Inr copy \<and> json out = lodash_unset copy (sourceKey p i)"
      by auto
    have u': "json out = lodash_unset (json it) (sourceKey p i)"
      if "\<not> keepSource (options p)" "\<not> convertAllData p i"
      using u [OF that] wf_item_json [OF assms(1)] by auto
    have e: "lodash_get (Some (JObj [])) Q = None" for Q
      by (cases "split_path Q") (simp_all add: lodash_get_def)
    show ?thesis
      using nm m k a u' v(2) e
      by (auto simp: lodash_get_unset_same lodash_get_unset_other)
  qed
  from assms(2) have "mode p = ''binaryToJson'' \<or> mode p = ''jsonToBinary''"
    by (auto simp: loop_body_def split: if_splits)
  with b2j j2b show ?thesis by blast
qed

theorem keep_source_frame_witness:
  "wf_item (text_item ''1'') \<and>
   loop_body node_ascii (node_params ''binaryToJson'' no_options) 0 (text_item ''1'') =
     Inr (Some \<lparr>json = JNum 1, binary = Some (JObj [])\<rparr>) \<and>
   (\<exists>b. binary (text_item ''1'') = Some b \<and>
      binary \<lparr>json = JNum 1, binary = Some (JObj [])\<rparr> = Some (lodash_unset b ''data'')) \<and>
   lodash_get (binary \<lparr>json = JNum 1, binary = Some (JObj [])\<rparr>) ''data'' = None \<and>
   loop_body node_ascii (node_params ''binaryToJson'' (no_options\<lparr>keepSource := True\<rparr>)) 0
       (text_item ''1'') =
     Inr (Some \<lparr>json = JNum 1, binary = binary (text_item ''1'')\<rparr>) \<and>
   lodash_get (binary \<lparr>json = JNum 1, binary = binary (text_item ''1'')\<rparr>) ''data'' \<noteq> None"
proof -
  let ?p = "node_params ''binaryToJson'' no_options"
  let ?q = "node_params ''binaryToJson'' (no_options\<lparr>keepSource := True\<rparr>)"
  have 1: "wf_item (text_item ''1'')" by code_simp
  have 2: "loop_body node_ascii ?p 0 (text_item ''1'') =
      Inr (Some \<lparr>json = JNum 1, binary = Some (JObj [])\<rparr>)"
    by code_simp
  have 3: "loop_body node_ascii ?q 0 (text_item ''1'') =
      Inr (Some \<lparr>json = JNum 1, binary = binary (text_item ''1'')\<rparr>)"
    by code_simp
  have p: "mode ?p = ''binaryToJson''" "\<not> keepSource (options ?p)" "sourceKey ?p 0 = ''data''"
    by (simp_all add: node_params_def no_options_def)
  have q: "mode ?q = ''binaryToJson''" "keepSource (options ?q)" "sourceKey ?q 0 = ''data''"
    by (simp_all add: node_params_def no_options_def)
  from keep_source_frame [OF 1 2] p
  have a: "(\<exists>b. binary (text_item ''1'') = Some b \<and>
      binary \<lparr>json = JNum 1, binary = Some (JObj [])\<rparr> = Some (lodash_unset b ''data'')) \<and>
    lodash_get (binary \<lparr>json = JNum 1, binary = Some (JObj [])\<rparr>) ''data'' = None"
    by simp
  from keep_source_frame [OF 1 3] q
  have b: "lodash_get (binary \<lparr>json = JNum 1, binary = binary (text_item ''1'')\<rparr>) ''data'' \<noteq> None"
    by simp
  from 1 2 3 a b show ?thesis by blast
qed

subsection \<open>There and back\<close>

text \<open>
  C2. For every record and path \<open>P\<close> with a structured value \<open>v\<close> at \<open>P\<close>: converting
  in the mode \<^verbatim>\<open>jsonToBinary\<close> (\<^verbatim>\<open>sourceKey = P\<close>, \<^verbatim>\<open>destinationKey = P\<close>,
  \<^verbatim>\<open>useRawData = false\<close>, \<^verbatim>\<open>keepSource = true\<close>) and then in the mode \<^verbatim>\<open>binaryToJson\<close>
  (\<^verbatim>\<open>sourceKey = P\<close>, \<^verbatim>\<open>destinationKey = P\<close>, \<^verbatim>\<open>setAllData = false\<close>,
  \<^verbatim>\<open>jsonParse = true\<close>, \<^verbatim>\<open>keepSource = true\<close>, the encoding left at \<^verbatim>\<open>utf8\<close>) yields an
  output record whose structured value at \<open>P\<close> is \<open>v\<close> again. The value is serializable as
  every value of the type \<open>json\<close> with unique keys is; of Node the theorem asks that
  decoding the serialized text as UTF-8 gives that text back.
\<close>

theorem json_binary_json_roundtrip:
  assumes "wf_item it"
    and "lodash_get (Some (json it)) P = Some v"
    and "mode p1 = ''jsonToBinary''" "sourceKey p1 i = P" "destinationKey p1 i = P"
      "convertAllData p1 i = False" "useRawData (options p1) = False"
      "keepSource (options p1) = True"
    and "mode p2 = ''binaryToJson''" "sourceKey p2 j = P" "destinationKey p2 j = P"
      "setAllData p2 j = False" "jsonParse (options p2) = True"
      "keepSource (options p2) = True"
      "encoding (options p2) = None \<or> encoding (options p2) = Some ''utf8''"
    and "bufferToString api ''utf8'' (JSON_stringify v) = Inr (JSON_stringify v)"
  shows "\<exists>out1 out2. loop_body api p1 i it = Inr (Some out1) \<and>
    loop_body api p2 j out1 = Inr (Some out2) \<and>
    lodash_get (Some (json out2)) P = Some v"
proof -
  define payload where "payload =
    JObj [(''data'', JStr (base64_encode (JSON_stringify v))),
          (''mimeType'', JStr (or_default (mimeType (options p1)) ''application/json''))]"
  obtain nb where nb: "(case binary it of Some b \<Rightarrow> deep_copy b | None \<Rightarrow> Inr (JObj [])) = Inr nb"
    "is_object nb"
    using assms(1) by (cases "binary it") (auto simp: wf_item_def deep_copy_wf is_object_def)
  define out1 where "out1 = \<lparr>json = json it, binary = Some (lodash_set nb P payload)\<rparr>"
  have 1: "loop_body api p1 i it = Inr (Some out1)"
    using assms(2-8) nb(1)
    by (simp add: loop_body_def jsonToBinary_def jsonToBinary_value_def Buffer_from_JStr
        out1_def payload_def)
  have wfv: "wf_json v"
    using assms(1,2) wf_json_get_path [of "json it" "split_path P" v]
    by (simp add: wf_item_def lodash_get_def)
  have g: "lodash_get (binary out1) P = Some payload"
    using nb(2) by (simp add: out1_def lodash_get_set)
  have d: "prop_data payload = Inr (Some (JStr (base64_encode (JSON_stringify v))))"
    by (simp add: payload_def prop_data_def)
  have enc: "or_default (encoding (options p2)) ''utf8'' = ''utf8''"
    using assms(15) by (auto simp: or_default_def)
  have c: "deep_copy (json out1) = Inr (json it)"
    using assms(1) by (simp add: out1_def wf_item_json)
  define out2 where "out2 = \<lparr>json = lodash_set (json it) P v, binary = binary out1\<rparr>"
  have 2: "loop_body api p2 j out1 = Inr (Some out2)"
    using assms(9-14) g d enc c assms(16) wfv
    by (simp add: loop_body_def binaryToJson_def binaryToJson_value_def
        Buffer_from_base64_JStr base64_roundtrip JSON_parse_or_raise_stringify out2_def)
  have "is_object (json it)"
    using assms(1) by (simp add: wf_item_def)
  then have 3: "lodash_get (Some (json out2)) P = Some v"
    by (simp add: out2_def lodash_get_set)
  from 1 2 3 show ?thesis by blast
qed

theorem json_binary_json_roundtrip_witness:
  "wf_item nested_item \<and>
   lodash_get (Some (json nested_item)) ''data'' = Some (JObj [(''a'', JNum 1)]) \<and>
   bufferToString node_ascii ''utf8'' (JSON_stringify (JObj [(''a'', JNum 1)])) =
     Inr (JSON_stringify (JObj [(''a'', JNum 1)])) \<and>
   (\<exists>out1 out2.
      loop_body node_ascii (partial_params ''jsonToBinary'' (no_options\<lparr>keepSource := True\<rparr>)) 0
        nested_item = Inr (Some out1) \<and>
      loop_body node_ascii
        (partial_params ''binaryToJson'' (no_options\<lparr>keepSource := True, jsonParse := True\<rparr>)) 0
        out1 = Inr (Some out2) \<and>
      lodash_get (Some (json out2)) ''data'' = Some (JObj [(''a'', JNum 1)]))"
proof -
  let ?p1 = "partial_params ''jsonToBinary'' (no_options\<lparr>keepSource := True\<rparr>)"
  let ?p2 = "partial_params ''binaryToJson'' (no_options\<lparr>keepSource := True, jsonParse := True\<rparr>)"
  let ?v = "JObj [(''a'', JNum 1)]"
  have 1: "wf_item nested_item" by code_simp
  have 2: "lodash_get (Some (json nested_item)) ''data'' = Some ?v" by code_simp
  have 3: "bufferToString node_ascii ''utf8'' (JSON_stringify ?v) = Inr (JSON_stringify ?v)"
    by (simp add: node_ascii_def)
  have p1: "mode ?p1 = ''jsonToBinary''" "sourceKey ?p1 0 = ''data''"
    "destinationKey ?p1 0 = ''data''" "convertAllData ?p1 0 = False"
    "useRawData (options ?p1) = False" "keepSource (options ?p1) = True"
    by (simp_all add: partial_params_def no_options_def)
  have p2: "mode ?p2 = ''binaryToJson''" "sourceKey ?p2 0 = ''data''"
    "destinationKey ?p2 0 = ''data''" "setAllData ?p2 0 = False"
    "jsonParse (options ?p2) = True" "keepSource (options ?p2) = True"
    "encoding (options ?p2) = None \<or> encoding (options ?p2) = Some ''utf8''"
    by (simp_all add: partial_params_def no_options_def)
  from json_binary_json_roundtrip [OF 1 2 p1 p2 3] 1 2 3 show ?thesis
    by blast
qed

subsection \<open>Defaults of the options\<close>

text \<open>
  C8. When the \<^verbatim>\<open>encoding\<close> option is left out, the mode \<^verbatim>\<open>binaryToJson\<close> decodes the
  bytes of the payload as UTF-8. The conversion of a batch is the one with
  \<^verbatim>\<open>encoding = "utf8"\<close>. And for every record with a payload at the source key, of bytes
  \<open>bytes\<close>: if \<^verbatim>\<open>buf.toString("utf8")\<close> raises, the conversion raises that error; if it
  gives a text, the record yields an output whose structured value is made of that
  text: what it parses to under \<^verbatim>\<open>setAllData\<close>, the input structured value with the
  text, or what it parses to under \<^verbatim>\<open>jsonParse\<close>, set at the destination key otherwise;
  and the conversion raises the \<^verbatim>\<open>SyntaxError\<close> when the text is to be parsed and does
  not parse.

  When the \<^verbatim>\<open>mimeType\<close> option is left out, the mode \<^verbatim>\<open>jsonToBinary\<close> stores the payload
  with the \<^verbatim>\<open>mimeType\<close> \<^verbatim>\<open>application/json\<close>. The conversion of a batch is the one with
  that \<^verbatim>\<open>mimeType\<close> given. And for every record with a source value: if \<^verbatim>\<open>Buffer.from\<close>
  raises, which it can only when \<^verbatim>\<open>useRawData\<close> is set (lemma \<open>Buffer_from_JStr\<close>), the
  conversion raises that error; if it gives bytes, the record yields an output whose
  binary side is the input's after \<^verbatim>\<open>set\<close> of the payload at the destination key, the
  payload being the base64 text of the bytes with the \<^verbatim>\<open>mimeType\<close> \<^verbatim>\<open>application/json\<close>;
  that payload is the value at the destination key when the input's binary side is an
  object or absent.
\<close>

theorem default_encoding_and_mime_type:
  "(encoding (options p) = None \<longrightarrow>
      execute api p items =
        execute api (p\<lparr>options := (options p)\<lparr>encoding := Some ''utf8''\<rparr>\<rparr>) items) \<and>
   (encoding (options p) = None \<and> mode p = ''binaryToJson'' \<and> wf_values it \<and>
    lodash_get (binary it) (sourceKey p i) = Some v \<and> prop_data v = Inr d \<and>
    Buffer_from_base64 api d = Inr bytes \<longrightarrow>
      (case bufferToString api ''utf8'' bytes of
         Inl e \<Rightarrow> loop_body api p i it = Inl e
       | Inr decoded \<Rightarrow>
           if setAllData p i \<or> jsonParse (options p) then
             (case JSON_parse decoded of
                None \<Rightarrow> loop_body api p i it = Inl SyntaxError
              | Some j \<Rightarrow>
                  \<exists>out. loop_body api p i it = Inr (Some out) \<and>
                    json out =
                      (if setAllData p i then j
                       else lodash_set (json it) (destinationKey p i) j))
           else
             \<exists>out. loop_body api p i it = Inr (Some out) \<and>
               json out = lodash_set (json it) (destinationKey p i) (JStr decoded))) \<and>
   (mimeType (options p) = None \<longrightarrow>
      execute api p items =
        execute api (p\<lparr>options := (options p)\<lparr>mimeType := Some ''application/json''\<rparr>\<rparr>)
          items) \<and>
   (mimeType (options p) = None \<and> mode p = ''jsonToBinary'' \<and> wf_values it \<and>
    (if convertAllData p i then Some (json it)
     else lodash_get (Some (json it)) (sourceKey p i)) = Some src \<longrightarrow>
      (case Buffer_from api (if useRawData (options p) then src else JStr (JSON_stringify src)) of
         Inl e \<Rightarrow> loop_body api p i it = Inl e
       | Inr buf \<Rightarrow>
           \<exists>out. loop_body api p i it = Inr (Some out) \<and>
             binary out =
               Some (lodash_set (case binary it of None \<Rightarrow> JObj [] | Some b \<Rightarrow> b)
                 (destinationKey p i)
                 (JObj [(''data'', JStr (base64_encode buf)),
                        (''mimeType'', JStr ''application/json'')])) \<and>
             ((case binary it of None \<Rightarrow> True | Some b \<Rightarrow> is_object b) \<longrightarrow>
                lodash_get (binary out) (destinationKey p i) =
                  Some (JObj [(''data'', JStr (base64_encode buf)),
                              (''mimeType'', JStr ''application/json'')]))))"
proof (intro conjI impI)
  assume "encoding (options p) = None"
  then show "execute api p items =
      execute api (p\<lparr>options := (options p)\<lparr>encoding := Some ''utf8''\<rparr>\<rparr>) items"
    unfolding execute_def by (intro run_items_cong loop_body_default_encoding)
next
  assume "mimeType (options p) = None"
  then show "execute api p items =
      execute api (p\<lparr>options := (options p)\<lparr>mimeType := Some ''application/json''\<rparr>\<rparr>) items"
    unfolding execute_def by (intro run_items_cong loop_body_default_mimeType)
next
  assume a: "encoding (options p) = None \<and> mode p = ''binaryToJson'' \<and> wf_values it \<and>
    lodash_get (binary it) (sourceKey p i) = Some v \<and> prop_data v = Inr d \<and>
    Buffer_from_base64 api d = Inr bytes"
  then have e: "or_default (encoding (options p)) ''utf8'' = ''utf8''"
    by (simp add: or_default_def)
  from a obtain b where b: "binary it = Some b"
    using lodash_get_binary_Some by blast
  from a have l: "loop_body api p i it =
      and_then (binaryToJson_value api p i it v) (\<lambda>newItem. Inr (Some newItem))"
    by (simp add: loop_body_def binaryToJson_def)
  show "case bufferToString api ''utf8'' bytes of
      Inl e \<Rightarrow> loop_body api p i it = Inl e
    | Inr decoded \<Rightarrow>
        if setAllData p i \<or> jsonParse (options p) then
          (case JSON_parse decoded of
             None \<Rightarrow> loop_body api p i it = Inl SyntaxError
           | Some j \<Rightarrow>
               \<exists>out. loop_body api p i it = Inr (Some out) \<and>
                 json out =
                   (if setAllData p i then j
                    else lodash_set (json it) (destinationKey p i) j))
        else
          \<exists>out. loop_body api p i it = Inr (Some out) \<and>
            json out = lodash_set (json it) (destinationKey p i) (JStr decoded)"
  proof (cases "bufferToString api ''utf8'' bytes")
    case (Inl err)
    with a e have "binaryToJson_value api p i it v = Inl err"
      by (intro binaryToJson_value_undecoded [of v d api bytes]) simp_all
    with l Inl show ?thesis by simp
  next
    case (Inr decoded)
    with a e b have v: "binaryToJson_value api p i it v =
      and_then
        (if setAllData p i then JSON_parse_or_raise decoded
         else and_then
           (if jsonParse (options p) then JSON_parse_or_raise decoded else Inr (JStr decoded))
           (\<lambda>cv. Inr (lodash_set (json it) (destinationKey p i) cv)))
        (\<lambda>newJson. Inr \<lparr>json = newJson,
           binary = (if keepSource (options p) then binary it
                     else Some (lodash_unset b (sourceKey p i)))\<rparr>)"
      by (intro binaryToJson_value_decoded [of v d api bytes]) simp_all
    show ?thesis
    proof (cases "JSON_parse decoded")
      case None
      then have "JSON_parse_or_raise decoded = Inl SyntaxError"
        by (rule JSON_parse_or_raise_None)
      with l v Inr None show ?thesis
        by simp
    next
      case (Some j)
      then have "JSON_parse_or_raise decoded = Inr j"
        by (simp add: JSON_parse_or_raise_Inr)
      with l v Inr Some show ?thesis
        by simp
    qed
  qed
next
  assume a: "mimeType (options p) = None \<and> mode p = ''jsonToBinary'' \<and> wf_values it \<and>
    (if convertAllData p i then Some (json it)
     else lodash_get (Some (json it)) (sourceKey p i)) = Some src"
  let ?old = "case binary it of None \<Rightarrow> JObj [] | Some b \<Rightarrow> b"
  let ?bytes = "Buffer_from api (if useRawData (options p) then src else JStr (JSON_stringify src))"
  from a have m: "or_default (mimeType (options p)) ''application/json'' = ''application/json''"
    by (simp add: or_default_def)
  from a have l: "loop_body api p i it =
      and_then (jsonToBinary_value api p i it src) (\<lambda>newItem. Inr (Some newItem))"
    by (simp add: loop_body_def jsonToBinary_def)
  from a have wf: "wf_values it"
    by simp
  show "case ?bytes of
      Inl e \<Rightarrow> loop_body api p i it = Inl e
    | Inr buf \<Rightarrow>
        \<exists>out. loop_body api p i it = Inr (Some out) \<and>
          binary out =
            Some (lodash_set ?old (destinationKey p i)
              (JObj [(''data'', JStr (base64_encode buf)),
                     (''mimeType'', JStr ''application/json'')])) \<and>
          ((case binary it of None \<Rightarrow> True | Some b \<Rightarrow> is_object b) \<longrightarrow>
             lodash_get (binary out) (destinationKey p i) =
               Some (JObj [(''data'', JStr (base64_encode buf)),
                           (''mimeType'', JStr ''application/json'')]))"
  proof (cases ?bytes)
    case (Inl err)
    with wf have "jsonToBinary_value api p i it src = Inl err"
      by (rule jsonToBinary_value_unstored)
    with l Inl show ?thesis by simp
  next
    case (Inr buf)
    let ?payload = "JObj [(''data'', JStr (base64_encode buf)),
        (''mimeType'', JStr ''application/json'')]"
    from jsonToBinary_value_stored [OF wf Inr, of i] obtain newJson where
      "jsonToBinary_value api p i it src =
        Inr \<lparr>json = newJson, binary = Some (lodash_set ?old (destinationKey p i) ?payload)\<rparr>"
      unfolding m by blast
    with l have o: "loop_body api p i it =
        Inr (Some \<lparr>json = newJson,
                   binary = Some (lodash_set ?old (destinationKey p i) ?payload)\<rparr>)"
      by simp
    have g: "(case binary it of None \<Rightarrow> True | Some b \<Rightarrow> is_object b) \<Longrightarrow>
        lodash_get (Some (lodash_set ?old (destinationKey p i) ?payload)) (destinationKey p i) =
          Some ?payload"
      by (intro lodash_get_set) (cases "binary it"; simp add: is_object_def)
    from o g Inr show ?thesis by simp
  qed
qed

theorem default_encoding_and_mime_type_witness:
  "encoding (options (partial_params ''binaryToJson'' no_options)) = None \<and>
   wf_values (text_item ''hello'') \<and>
   lodash_get (binary (text_item ''hello''))
     (sourceKey (partial_params ''binaryToJson'' no_options) 0) =
     Some (JObj [(''data'', JStr (base64_encode ''hello'')), (''mimeType'', JStr ''text/plain'')]) \<and>
   Buffer_from_base64 node_ascii (Some (JStr (base64_encode ''hello''))) = Inr ''hello'' \<and>
   bufferToString node_ascii ''utf8'' ''hello'' = Inr ''hello'' \<and>
   execute node_ascii (partial_params ''binaryToJson'' no_options) [text_item ''hello''] =
     execute node_ascii
       ((partial_params ''binaryToJson'' no_options)
          \<lparr>options := (options (partial_params ''binaryToJson'' no_options))
             \<lparr>encoding := Some ''utf8''\<rparr>\<rparr>) [text_item ''hello''] \<and>
   (\<exists>out. loop_body node_ascii (partial_params ''binaryToJson'' no_options) 0
        (text_item ''hello'') = Inr (Some out) \<and>
      json out = lodash_set (json (text_item ''hello'')) ''data'' (JStr ''hello'')) \<and>
   lodash_set (json (text_item ''hello'')) ''data'' (JStr ''hello'') =
     JObj [(''data'', JStr ''hello'')] \<and>
   mimeType (options (node_params ''jsonToBinary'' no_options)) = None \<and>
   wf_values nested_item \<and>
   Buffer_from node_ascii (JStr (JSON_stringify (json nested_item))) =
     Inr (JSON_stringify (json nested_item)) \<and>
   execute node_ascii (node_params ''jsonToBinary'' no_options) [nested_item] =
     execute node_ascii
       ((node_params ''jsonToBinary'' no_options)
          \<lparr>options := (options (node_params ''jsonToBinary'' no_options))
             \<lparr>mimeType := Some ''application/json''\<rparr>\<rparr>) [nested_item] \<and>
   (\<exists>out. loop_body node_ascii (node_params ''jsonToBinary'' no_options) 0 nested_item =
        Inr (Some out) \<and>
      lodash_get (binary out) ''data'' =
        Some (JObj [(''data'', JStr (base64_encode (JSON_stringify (json nested_item)))),
                    (''mimeType'', JStr ''application/json'')])) \<and>
   base64_encode (JSON_stringify (json nested_item)) = ''eyJkYXRhIjp7ImEiOjF9fQ==''"
proof -
  let ?pb = "partial_params ''binaryToJson'' no_options"
  let ?pj = "node_params ''jsonToBinary'' no_options"
  let ?e = "JObj [(''data'', JStr (base64_encode ''hello'')), (''mimeType'', JStr ''text/plain'')]"
  let ?s = "JSON_stringify (json nested_item)"
  have b: "encoding (options ?pb) = None" "mode ?pb = ''binaryToJson''"
    "setAllData ?pb 0 = False" "jsonParse (options ?pb) = False"
    "destinationKey ?pb 0 = ''data''"
    by (simp_all add: partial_params_def no_options_def)
  have b1: "wf_values (text_item ''hello'')" by code_simp
  have b2: "lodash_get (binary (text_item ''hello'')) (sourceKey ?pb 0) = Some ?e" by code_simp
  have b3: "prop_data ?e = Inr (Some (JStr (base64_encode ''hello'')))" by code_simp
  have b4: "Buffer_from_base64 node_ascii (Some (JStr (base64_encode ''hello''))) = Inr ''hello''"
    by code_simp
  have b5: "bufferToString node_ascii ''utf8'' ''hello'' = Inr ''hello''"
    by (simp add: node_ascii_def)
  have b6: "lodash_set (json (text_item ''hello'')) ''data'' (JStr ''hello'') =
      JObj [(''data'', JStr ''hello'')]"
    by code_simp
  have j: "mimeType (options ?pj) = None" "mode ?pj = ''jsonToBinary''"
    "destinationKey ?pj 0 = ''data''" "convertAllData ?pj 0" "useRawData (options ?pj) = False"
    by (simp_all add: node_params_def no_options_def)
  have j1: "wf_values nested_item" by code_simp
  have j2: "Buffer_from node_ascii (JStr ?s) = Inr ?s"
    by (rule Buffer_from_JStr)
  have j3: "binary nested_item = None"
    by (simp add: nested_item_def)
  have j4: "base64_encode ?s = ''eyJkYXRhIjp7ImEiOjF9fQ==''"
    by code_simp
  note t1 = default_encoding_and_mime_type [of ?pb node_ascii "[text_item ''hello'']"
      "text_item ''hello''" 0 ?e "Some (JStr (base64_encode ''hello''))" "''hello''"
      "json nested_item"]
  note t2 = default_encoding_and_mime_type [of ?pj node_ascii "[nested_item]"
      nested_item 0 ?e "Some (JStr (base64_encode ''hello''))" "''hello''"
      "json nested_item"]
  from t1 b(1) have c1: "execute node_ascii ?pb [text_item ''hello''] =
      execute node_ascii (?pb\<lparr>options := (options ?pb)\<lparr>encoding := Some ''utf8''\<rparr>\<rparr>)
        [text_item ''hello'']"
    by (simp only:)
  from t1 [THEN conjunct2, THEN conjunct1] b b1 b2 b3 b4 b5
  have c2: "\<exists>out. loop_body node_ascii ?pb 0 (text_item ''hello'') = Inr (Some out) \<and>
      json out = lodash_set (json (text_item ''hello'')) ''data'' (JStr ''hello'')"
    by simp
  from t2 j(1) have c3: "execute node_ascii ?pj [nested_item] =
      execute node_ascii (?pj\<lparr>options := (options ?pj)\<lparr>mimeType := Some ''application/json''\<rparr>\<rparr>)
        [nested_item]"
    by (simp only:)
  from t2 [THEN conjunct2, THEN conjunct2, THEN conjunct2] j j1 j2 j3
  have c4: "\<exists>out. loop_body node_ascii ?pj 0 nested_item = Inr (Some out) \<and>
      lodash_get (binary out) ''data'' =
        Some (JObj [(''data'', JStr (base64_encode ?s)), (''mimeType'', JStr ''application/json'')])"
    by auto
  from b(1) b1 b2 b4 b5 b6 c1 c2 j(1) j1 j2 j4 c3 c4 show ?thesis
    by blast
qed

subsection \<open>Converting all data\<close>

text \<open>
  C9, as the spec states it, is false: in the mode \<^verbatim>\<open>jsonToBinary\<close> with
  \<^verbatim>\<open>convertAllData = true\<close> every record should yield exactly one output record. With
  \<^verbatim>\<open>useRawData\<close> set the structured value \<^verbatim>\<open>{a: 1}\<close> goes to \<^verbatim>\<open>Buffer.from\<close> as it is,
  which raises a \<^verbatim>\<open>TypeError\<close> on an object that is not array-like, and \<^verbatim>\<open>execute\<close>
  returns no batch.
\<close>

theorem raw_object_raises_counterexample:
  "mode (node_params ''jsonToBinary'' (no_options\<lparr>useRawData := True\<rparr>)) = ''jsonToBinary'' \<and>
   convertAllData (node_params ''jsonToBinary'' (no_options\<lparr>useRawData := True\<rparr>)) 0 \<and>
   execute node_ascii (node_params ''jsonToBinary'' (no_options\<lparr>useRawData := True\<rparr>))
     [\<lparr>json = JObj [(''a'', JNum 1)], binary = None\<rparr>] = Inl TypeError"
  by code_simp

text \<open>
  C9, amended: in the mode \<^verbatim>\<open>jsonToBinary\<close> with \<^verbatim>\<open>convertAllData = true\<close> no record is
  ever dropped for a missing source: the source value is the whole structured value of
  the record, which is always there. So for every batch whose conversion raises no
  error every record yields exactly one output record and the output batch is as long
  as the input batch; and the conversion raises no error when \<^verbatim>\<open>useRawData\<close> is not
  set (on records as their type has them, \<open>wf_item\<close>).
\<close>

theorem convert_all_data_never_drops:
  assumes "mode p = ''jsonToBinary''"
    and "\<forall>i < length items. convertAllData p i"
  shows "list_all (\<lambda>(i, it). \<not> source_absent p i it \<and> loop_body api p i it \<noteq> Inr None)
      (enumerate 0 items) \<and>
    (\<forall>out. execute api p items = Inr out \<longrightarrow> length out = length items) \<and>
    (\<not> useRawData (options p) \<and> list_all wf_item items \<longrightarrow>
      (\<exists>out. execute api p items = Inr out \<and> length out = length items))"
proof -
  have idx: "i < length items \<and> it \<in> set items" if "(i, it) \<in> set (enumerate 0 items)" for i it
    using that by (auto simp: in_set_enumerate_eq)
  have present: "\<not> source_absent p i it \<and> loop_body api p i it \<noteq> Inr None"
    if "(i, it) \<in> set (enumerate 0 items)" for i it
    using idx [OF that] assms by (auto simp: loop_body_skip source_absent_def)
  then have 1: "list_all (\<lambda>(i, it). \<not> source_absent p i it \<and> loop_body api p i it \<noteq> Inr None)
      (enumerate 0 items)"
    by (auto simp: list_all_iff)
  have one: "length (outputs_of api p i it) = 1"
    if "(i, it) \<in> set (enumerate 0 items)" "\<not> raises api p i it" for i it
    using outputs_of_length [OF that(2)] present [OF that(1)] by simp
  have len: "length out = length items" if "execute api p items = Inr out" for out
  proof -
    from that have ok: "list_all (\<lambda>(j, it). \<not> raises api p j it) (enumerate 0 items)"
      and out: "out = concat (map (\<lambda>(i, it). outputs_of api p i it) (enumerate 0 items))"
      by (simp_all add: execute_def run_items_Inr)
    have "list_all (\<lambda>x. length (case x of (i, it) \<Rightarrow> outputs_of api p i it) = 1)
        (enumerate 0 items)"
      using ok one by (auto simp: list_all_iff)
    from length_concat_singletons [OF this] out show ?thesis
      by simp
  qed
  have 3: "\<exists>out. execute api p items = Inr out \<and> length out = length items"
    if "\<not> useRawData (options p)" "list_all wf_item items"
  proof -
    have "\<not> raises api p i it" if m: "(i, it) \<in> set (enumerate 0 items)" for i it
    proof -
      from idx [OF m] assms(2) \<open>list_all wf_item items\<close>
      have c: "convertAllData p i" and w: "wf_item it"
        by (auto simp: list_all_iff)
      from jsonToBinary_all_succeeds [OF c \<open>\<not> useRawData (options p)\<close> w]
      obtain out where "jsonToBinary_value api p i it (json it) = Inr out" ..
      with assms(1) c show ?thesis
        by (simp add: raises_def loop_body_def jsonToBinary_def)
    qed
    then have "list_all (\<lambda>(j, it). \<not> raises api p j it) (enumerate 0 items)"
      by (auto simp: list_all_iff)
    then obtain out where "execute api p items = Inr out"
      by (simp add: execute_def run_items_Inr)
    with len show ?thesis by blast
  qed
  from 1 len 3 show ?thesis by blast
qed

theorem convert_all_data_never_drops_witness:
  "mode (node_params ''jsonToBinary'' no_options) = ''jsonToBinary'' \<and>
   list_all wf_item [nested_item, text_item ''1''] \<and>
   (\<exists>out. execute node_ascii (node_params ''jsonToBinary'' no_options)
      [nested_item, text_item ''1''] = Inr out \<and>
      length out = length [nested_item, text_item ''1''])"
proof -
  let ?p = "node_params ''jsonToBinary'' no_options"
  have 1: "mode ?p = ''jsonToBinary''" by (simp add: node_params_def)
  have 2: "\<forall>i < length [nested_item, text_item ''1'']. convertAllData ?p i"
    by (simp add: node_params_def)
  have 3: "\<not> useRawData (options ?p)" by (simp add: node_params_def no_options_def)
  have 4: "list_all wf_item [nested_item, text_item ''1'']" by code_simp
  from convert_all_data_never_drops [OF 1 2, of node_ascii] 1 3 4 show ?thesis
    by blast
qed

end
